theory Spec2Isabelle
  imports Main "HOL-Library.AList" "HOL-Library.Multiset"
begin

section \<open>Values, errors, panics and observable events\<close>

text \<open>
  Go's \<open>interface{}\<close> values that the engine stores in session attributes and in the
  outbound data mapping: strings, \<open>time.Time\<close> instants (nanoseconds), \<open>time.Duration\<close>
  values, and anything else.
\<close>

datatype gvalue = VString string | VTime int | VDuration int | VOther nat

text \<open>
  Go \<open>error\<close> values returned by \<open>Handle\<close>. \<open>ErrInterceptorDropped\<close> is the sentinel of
  engine.go (compared with \<open>==\<close>); every other error carries its text.
\<close>

datatype gerror = ErrInterceptorDropped | ErrOther string

text \<open>Log levels of zerolog and the messages written by engine.go (one per call site).\<close>

datatype level = LDebug | LInfo | LWarn | LError | LPanic

datatype logmsg =
    MsgInvoker string
  | MsgStage nat string
  | MsgMatch nat bool
  | MsgSessionAttr string gvalue
  | MsgDropped gerror
  | MsgInterceptorError gerror
  | MsgDriverError gerror
  | MsgGoroutine nat gerror
  | MsgEngineStart bool
  | MsgEngineStop bool

text \<open>
  A value given to \<open>panic\<close>: a value that implements \<open>error\<close> (the type assertion
  \<open>r.(error)\<close> of \<open>checkRecover\<close> succeeds), the message string with which zerolog panics
  after it has written an event of level Panic, or any other value that is not an error.
\<close>

datatype pval = PError gerror | PLogged logmsg | PValue gvalue

text \<open>A call of user code either returns or panics.\<close>

datatype 'a ret = Return 'a | Panic pval

datatype role = Plugins | Pipelines | Drivers | Triggers

text \<open>
  What the engine does that is visible from outside, in the order in which it does it:
  log events, attribute writes on the session, calls of \<open>Handle\<close> (with the component's
  identity and how the call came back), channel sends onto a dispatcher stage, the call of
  the completion callback, and the lifecycle calls of \<open>Start\<close> and \<open>Stop\<close>.
\<close>

datatype event =
    Log level logmsg
  | SetAttr string gvalue
  | IHandle nat "gerror option ret"
  | DHandle nat "gerror option ret"
  | Send nat
  | Completed "string \<rightharpoonup> gvalue"
  | Hook nat
  | OnStart role nat
  | OnStop role nat
  | Shutdown

section \<open>Sessions\<close>

record 'd Inbound =
  Topic_in :: string
  Data_in :: 'd

record Outbound =
  Topic_out :: string
  Data_out :: "string \<rightharpoonup> gvalue"

record 'd TriggerEvent =
  topic_ev :: string
  data_ev :: 'd

text \<open>
  \<open>sessionImpl\<close> as the struct literal of \<open>prepareEnv\<close> builds it (the lock \<open>attrLock\<close>
  has no content). The completion callback is a func value: nil (\<open>None\<close>), or user
  code that returns (\<open>None\<close>) or panics.
\<close>

record 'd sessionImpl =
  timestamp :: int
  attributes :: "(string \<times> gvalue) list"
  topic :: string
  contextId :: int
  inbound :: "'d Inbound"
  outbound :: Outbound
  onCompletedFunc :: "((string \<rightharpoonup> gvalue) \<Rightarrow> pval option) option"

text \<open>
  Modelled from the spec: the methods of \<open>sessionImpl\<close> and \<open>Outbound\<close> are not in the
  sources at hand. \<open>AddAttribute\<close> stores a value under a key of the attribute mapping,
  \<open>Escaped\<close> is the time elapsed since the session was created, read at instant \<open>now\<close>,
  and \<open>AddDataField\<close> adds a field to the outbound data mapping.
\<close>

definition AddAttribute :: "'d sessionImpl \<Rightarrow> string \<Rightarrow> gvalue \<Rightarrow> 'd sessionImpl" where
  "AddAttribute s k v = s\<lparr>attributes := AList.update k v (attributes s)\<rparr>"

definition Escaped :: "'d sessionImpl \<Rightarrow> int \<Rightarrow> int" where
  "Escaped s now = now - timestamp s"

definition AddDataField :: "Outbound \<Rightarrow> string \<Rightarrow> gvalue \<Rightarrow> Outbound" where
  "AddDataField ob k v = ob\<lparr>Data_out := (Data_out ob)(k \<mapsto> v)\<rparr>"

section \<open>Components and the engine\<close>

text \<open>
  An interceptor or a driver is an object behind an interface: its identity (the pointer),
  what its getters return, and its \<open>Handle\<close>, user code that may change the session it is
  given and returns an error, returns nil, or panics. The context and the pipeline selector
  that \<open>Handle\<close> also receives are fixed for an engine and are part of the function.
\<close>

record ('e, 'd) Interceptor =
  ref_i :: nat
  GetPriority :: int
  GetTopicExpr_i :: "'e list"
  Handle_i :: "'d sessionImpl \<Rightarrow> 'd sessionImpl \<times> gerror option ret"

record ('e, 'd) Driver =
  ref_d :: nat
  GetTopicExpr_d :: "'e list"
  Handle_d :: "'d sessionImpl \<Rightarrow> 'd sessionImpl \<times> gerror option ret"

text \<open>
  The engine with its embedded registration: the component lists in registration order,
  the pipelines keyed by protocol, the hooks, and the two switches of the context that
  engine.go reads (\<open>IsFailFastEnabled\<close>, and the verbose switch behind \<open>OnIfLogV\<close>).
  Plugins, pipelines, triggers and hooks only receive lifecycle calls; their identity
  is all that is kept.
\<close>

record ('e, 'd) Engine =
  plugins :: "nat list"
  pipelines :: "string \<rightharpoonup> nat"
  drivers :: "('e, 'd) Driver list"
  interceptors :: "('e, 'd) Interceptor list"
  triggers :: "nat list"
  startBeforeHooks :: "nat list"
  startAfterHooks :: "nat list"
  stopBeforeHooks :: "nat list"
  stopAfterHooks :: "nat list"
  failFast :: bool
  logV :: bool

text \<open>
  The result of one run of a stage handler: the session as the handler leaves it, the
  events in order, and the panic value that leaves the handler, if one does.
\<close>

record 'd stageResult =
  session :: "'d sessionImpl"
  events :: "event list"
  raised :: "pval option"

section \<open>Topic matching\<close>

text \<open>
  \<open>anyTopicMatches\<close> of engine.go. \<open>TopicExpr.matches\<close> is not in the sources at hand
  and is the parameter \<open>mt\<close>; the type of expressions is the type variable \<open>'e\<close>.
\<close>

fun anyTopicMatches :: "('e \<Rightarrow> string \<Rightarrow> bool) \<Rightarrow> 'e list \<Rightarrow> string \<Rightarrow> bool" where
  "anyTopicMatches mt [] tp = False"
| "anyTopicMatches mt (t # ts) tp = (if mt t tp then True else anyTopicMatches mt ts tp)"

section \<open>Session intake\<close>

text \<open>
  Modelled from the spec: the context (\<open>contextImpl\<close>) is not in the sources at hand.
  \<open>OnIfLogV\<close> runs the function it is given when verbose logging is on, \<open>OnIfFailFast\<close>
  when fail-fast is on, and \<open>IsFailFastEnabled\<close> reads the fail-fast switch. The function
  given to \<open>OnIfLogV\<close> only writes debug messages: these are its events.
\<close>

definition OnIfLogV :: "('e, 'd) Engine \<Rightarrow> event list \<Rightarrow> event list" where
  "OnIfLogV en evs = (if logV en then evs else [])"

text \<open>The struct literal of the invoker closure; \<open>now\<close> is the reading of \<open>time.Now()\<close>.\<close>

definition newSession ::
  "int \<Rightarrow> 'd TriggerEvent \<Rightarrow> ((string \<rightharpoonup> gvalue) \<Rightarrow> pval option) option
     \<Rightarrow> 'd sessionImpl" where
  "newSession now income cbFunc =
     \<lparr> timestamp = now,
       attributes = [],
       topic = topic_ev income,
       contextId = 0,
       inbound = \<lparr> Topic_in = topic_ev income, Data_in = data_ev income \<rparr>,
       outbound = \<lparr> Topic_out = topic_ev income, Data_out = Map.empty \<rparr>,
       onCompletedFunc = cbFunc \<rparr>"

text \<open>The invoker: the debug message, then the new session is sent on \<open>Lv0\<close>.\<close>

definition invoker ::
  "('e, 'd) Engine \<Rightarrow> int \<Rightarrow> 'd TriggerEvent
     \<Rightarrow> ((string \<rightharpoonup> gvalue) \<Rightarrow> pval option) option \<Rightarrow> 'd stageResult" where
  "invoker en now income cbFunc =
     \<lparr> session = newSession now income cbFunc,
       events = OnIfLogV en [Log LDebug (MsgInvoker (topic_ev income))] @ [Send 0],
       raised = None \<rparr>"

text \<open>
  Modelled from the spec: the \<open>Dispatcher\<close> is not in the sources at hand. It has three
  FIFO stage queues; a send on \<open>Lv<n>\<close> appends the session to queue \<open>n\<close>. The capacity of
  a queue only delays a send (the sender blocks until there is room), so it is left out.
\<close>

record 'd Dispatcher =
  lv0 :: "'d sessionImpl list"
  lv1 :: "'d sessionImpl list"
  lv2 :: "'d sessionImpl list"

definition enqueue :: "nat \<Rightarrow> 'd sessionImpl \<Rightarrow> 'd Dispatcher \<Rightarrow> 'd Dispatcher" where
  "enqueue n s d =
     (if n = 0 then d\<lparr>lv0 := lv0 d @ [s]\<rparr>
      else if n = 1 then d\<lparr>lv1 := lv1 d @ [s]\<rparr>
      else if n = 2 then d\<lparr>lv2 := lv2 d @ [s]\<rparr>
      else d)"

text \<open>The sends among the events of a run, carried out on the dispatcher.\<close>

fun deliver :: "event list \<Rightarrow> 'd sessionImpl \<Rightarrow> 'd Dispatcher \<Rightarrow> 'd Dispatcher" where
  "deliver [] s d = d"
| "deliver (Send n # evs) s d = deliver evs s (enqueue n s d)"
| "deliver (_ # evs) s d = deliver evs s d"

definition sends :: "event list \<Rightarrow> nat list" where
  "sends evs = concat (map (\<lambda>e. case e of Send n \<Rightarrow> [n] | _ \<Rightarrow> []) evs)"

section \<open>Calling user code, logging, recovering\<close>

text \<open>
  \<open>Handle\<close> reaches the session through the \<open>Session\<close> interface: it can change the
  attributes and what the inbound and outbound pointers lead to, and nothing of the
  unexported fields \<open>timestamp\<close>, \<open>topic\<close>, \<open>contextId\<close> and \<open>onCompletedFunc\<close>.
\<close>

definition callHandle ::
  "('d sessionImpl \<Rightarrow> 'd sessionImpl \<times> 'r) \<Rightarrow> 'd sessionImpl \<Rightarrow> 'd sessionImpl \<times> 'r" where
  "callHandle h s =
     (case h s of (s', r) \<Rightarrow>
        (s'\<lparr>timestamp := timestamp s, topic := topic s, contextId := contextId s,
            onCompletedFunc := onCompletedFunc s\<rparr>, r))"

text \<open>\<open>failFastLogger\<close>: level Panic when fail-fast is on, level Error otherwise.\<close>

definition failFastLogger :: "('e, 'd) Engine \<Rightarrow> level" where
  "failFastLogger en = (if failFast en then LPanic else LError)"

text \<open>
  Writing a zerolog event (\<open>Msgf\<close>): the event is written, and at level Panic zerolog then
  calls \<open>panic\<close> with the message string.
\<close>

definition Msgf :: "level \<Rightarrow> logmsg \<Rightarrow> event list \<times> pval option" where
  "Msgf lvl m = ([Log lvl m], if lvl = LPanic then Some (PLogged m) else None)"

text \<open>How control leaves the body of a handler: off its end, by \<open>return\<close>, or panicking.\<close>

datatype flow = Continue | Returned | Panicking pval

definition recover :: "flow \<Rightarrow> pval option" where
  "recover fl = (case fl of Panicking p \<Rightarrow> Some p | _ \<Rightarrow> None)"

text \<open>
  \<open>checkRecover\<close>: with a recovered value, an Error event is written if the value is an
  error, and \<open>OnIfFailFast\<close> raises the value again when fail-fast is on.
  \<open>msg\<close> is the stage whose message is passed.
\<close>

definition checkRecover ::
  "('e, 'd) Engine \<Rightarrow> pval option \<Rightarrow> nat \<Rightarrow> event list \<times> pval option" where
  "checkRecover en r msg =
     (case r of
        None \<Rightarrow> ([], None)
      | Some p \<Rightarrow>
          ((case p of PError err \<Rightarrow> [Log LError (MsgGoroutine msg err)] | _ \<Rightarrow> []),
           if failFast en then Some p else None))"

definition prepend ::
  "event list \<Rightarrow> 'd sessionImpl \<times> event list \<times> flow \<Rightarrow> 'd sessionImpl \<times> event list \<times> flow" where
  "prepend evs r = (case r of (s, evs', fl) \<Rightarrow> (s, evs @ evs', fl))"

section \<open>The interceptor stage\<close>

text \<open>
  Modelled from the spec: \<open>InterceptorSlice\<close> and its \<open>Less\<close> are not in the sources at
  hand; the spec has the lower numeric priority first.
\<close>

definition Less :: "('e, 'd) Interceptor \<Rightarrow> ('e, 'd) Interceptor \<Rightarrow> bool" where
  "Less a b = (GetPriority a < GetPriority b)"

text \<open>
  \<open>sort.Sort\<close> is Go's library sort, which is not stable. It is a parameter \<open>srt\<close> of the
  interceptor stage, and \<open>sort_contract\<close> is what the library promises of it: the result
  is a rearrangement of the slice in which no element is \<open>Less\<close> than one before it.
\<close>

definition sort_contract ::
  "(('e, 'd) Interceptor list \<Rightarrow> ('e, 'd) Interceptor list) \<Rightarrow> bool" where
  "sort_contract srt =
     (\<forall>xs. mset (srt xs) = mset xs \<and> sorted_wrt (\<lambda>a b. \<not> Less b a) (srt xs))"

text \<open>
  The same promise for \<open>sort.Sort\<close> as the library function that it is, given the
  comparator: for every comparator that compares by an integer key, the result is a
  rearrangement in which no element is less than one before it. The direction of the
  order is then in the comparator alone. \<open>insertionSort\<close> is the library's insertion sort
  (the one it uses on short slices): each element in turn moves left past the elements
  that it is less than; \<open>moveLeft\<close> works on the part before it, last element first.
\<close>

definition sort_Sort_contract :: "(('a \<Rightarrow> 'a \<Rightarrow> bool) \<Rightarrow> 'a list \<Rightarrow> 'a list) \<Rightarrow> bool" where
  "sort_Sort_contract gsort =
     (\<forall>(key :: 'a \<Rightarrow> int) xs.
        mset (gsort (\<lambda>a b. key a < key b) xs) = mset xs
        \<and> sorted_wrt (\<lambda>a b. \<not> key b < key a) (gsort (\<lambda>a b. key a < key b) xs))"

fun moveLeft :: "('a \<Rightarrow> 'a \<Rightarrow> bool) \<Rightarrow> 'a \<Rightarrow> 'a list \<Rightarrow> 'a list" where
  "moveLeft lessf x [] = [x]"
| "moveLeft lessf x (r # rs) = (if lessf x r then r # moveLeft lessf x rs else x # r # rs)"

definition insertionSort :: "('a \<Rightarrow> 'a \<Rightarrow> bool) \<Rightarrow> 'a list \<Rightarrow> 'a list" where
  "insertionSort lessf xs = rev (foldl (\<lambda>rs x. moveLeft lessf x rs) [] xs)"

text \<open>The first loop of \<open>handleInterceptor\<close>: the matching interceptors, in registration order.\<close>

definition findMatches ::
  "('e \<Rightarrow> string \<Rightarrow> bool) \<Rightarrow> ('e, 'd) Engine \<Rightarrow> 'd sessionImpl \<Rightarrow> ('e, 'd) Interceptor list" where
  "findMatches mt en s =
     filter (\<lambda>it. anyTopicMatches mt (GetTopicExpr_i it) (topic s)) (interceptors en)"

definition matchLog ::
  "('e \<Rightarrow> string \<Rightarrow> bool) \<Rightarrow> ('e, 'd) Engine \<Rightarrow> 'd sessionImpl \<Rightarrow> event list" where
  "matchLog mt en s =
     OnIfLogV en
       (map (\<lambda>it. Log LDebug (MsgMatch (ref_i it)
                (anyTopicMatches mt (GetTopicExpr_i it) (topic s)))) (interceptors en))"

text \<open>
  The second loop of \<open>handleInterceptor\<close>, over the sorted matches: nil continues, the
  drop sentinel records the error field, sends on \<open>Lv2\<close> and returns, any other error
  is written with \<open>failFastLogger\<close>.
\<close>

fun runMatches ::
  "('e, 'd) Engine \<Rightarrow> ('e, 'd) Interceptor list \<Rightarrow> 'd sessionImpl
     \<Rightarrow> 'd sessionImpl \<times> event list \<times> flow" where
  "runMatches en [] s = (s, [], Continue)"
| "runMatches en (it # rest) s =
     (case callHandle (Handle_i it) s of
        (s1, Panic p) \<Rightarrow> (s1, [IHandle (ref_i it) (Panic p)], Panicking p)
      | (s1, Return None) \<Rightarrow>
          prepend [IHandle (ref_i it) (Return None)] (runMatches en rest s1)
      | (s1, Return (Some err)) \<Rightarrow>
          (if err = ErrInterceptorDropped then
             (s1\<lparr>outbound := AddDataField (outbound s1) ''error'' (VString ''InterceptorDropped'')\<rparr>,
              [IHandle (ref_i it) (Return (Some err)), Log LDebug (MsgDropped err), Send 2],
              Returned)
           else
             (case Msgf (failFastLogger en) (MsgInterceptorError err) of
                (lg, Some p) \<Rightarrow> (s1, IHandle (ref_i it) (Return (Some err)) # lg, Panicking p)
              | (lg, None) \<Rightarrow>
                  prepend (IHandle (ref_i it) (Return (Some err)) # lg)
                    (runMatches en rest s1))))"

text \<open>
  The body of \<open>handleInterceptor\<close> after the \<open>defer\<close> statement: matching, sorting, the
  chain, and the send on \<open>Lv1\<close> when the loop runs off its end.
\<close>

definition interceptorBody ::
  "('e \<Rightarrow> string \<Rightarrow> bool) \<Rightarrow> (('e, 'd) Interceptor list \<Rightarrow> ('e, 'd) Interceptor list)
     \<Rightarrow> ('e, 'd) Engine \<Rightarrow> 'd sessionImpl \<Rightarrow> 'd sessionImpl \<times> event list \<times> flow" where
  "interceptorBody mt srt en s =
     (case runMatches en (srt (findMatches mt en s)) s of
        (s1, evs, Continue) \<Rightarrow> (s1, matchLog mt en s @ evs @ [Send 1], Continue)
      | (s1, evs, fl) \<Rightarrow> (s1, matchLog mt en s @ evs, fl))"

text \<open>
  What every handler does around its body: the debug message, the Start attribute (the
  reading \<open>t0\<close> of \<open>time.Now()\<close>), the body, and the deferred function, which runs however
  the body was left: the End attribute (\<open>Escaped\<close>, read at \<open>t1\<close>) and \<open>checkRecover\<close>.
  A channel send passes the pointer, so the deferred write goes to the very session that
  the next stage holds; the result holds the session after that write, and this is the
  session that the next stage is given.
\<close>

definition stage ::
  "('e, 'd) Engine \<Rightarrow> nat \<Rightarrow> string \<Rightarrow> event list \<Rightarrow> int \<Rightarrow> int
     \<Rightarrow> ('d sessionImpl \<Rightarrow> 'd sessionImpl \<times> event list \<times> flow)
     \<Rightarrow> 'd sessionImpl \<Rightarrow> 'd stageResult" where
  "stage en n name dbg t0 t1 body s =
     (case body (AddAttribute s (name @ ''.Start'') (VTime t0)) of
        (s1, evs, fl) \<Rightarrow>
          (case checkRecover en (recover fl) n of
             (evr, r) \<Rightarrow>
               \<lparr> session = AddAttribute s1 (name @ ''.End'') (VDuration (Escaped s1 t1)),
                 events = OnIfLogV en dbg @ [SetAttr (name @ ''.Start'') (VTime t0)] @ evs
                          @ [SetAttr (name @ ''.End'') (VDuration (Escaped s1 t1))] @ evr,
                 raised = r \<rparr>))"

definition handleInterceptor ::
  "('e \<Rightarrow> string \<Rightarrow> bool) \<Rightarrow> (('e, 'd) Interceptor list \<Rightarrow> ('e, 'd) Interceptor list)
     \<Rightarrow> ('e, 'd) Engine \<Rightarrow> int \<Rightarrow> int \<Rightarrow> 'd sessionImpl \<Rightarrow> 'd stageResult" where
  "handleInterceptor mt srt en t0 t1 s =
     stage en 0 ''Interceptor'' [Log LDebug (MsgStage 0 (topic s))] t0 t1
       (interceptorBody mt srt en) s"

section \<open>The driver stage\<close>

text \<open>
  The loop of \<open>handleDriver\<close> over the drivers in registration order: the match is
  computed and written to the debug log, a matching driver's \<open>Handle\<close> is called, and
  an error is written with \<open>failFastLogger\<close>.
\<close>

fun runDrivers ::
  "('e \<Rightarrow> string \<Rightarrow> bool) \<Rightarrow> ('e, 'd) Engine \<Rightarrow> ('e, 'd) Driver list \<Rightarrow> 'd sessionImpl
     \<Rightarrow> 'd sessionImpl \<times> event list \<times> flow" where
  "runDrivers mt en [] s = (s, [], Continue)"
| "runDrivers mt en (d # rest) s =
     (let match = anyTopicMatches mt (GetTopicExpr_d d) (topic s);
          dbg = OnIfLogV en [Log LDebug (MsgMatch (ref_d d) match)]
      in if match then
           (case callHandle (Handle_d d) s of
              (s1, Panic p) \<Rightarrow> (s1, dbg @ [DHandle (ref_d d) (Panic p)], Panicking p)
            | (s1, Return None) \<Rightarrow>
                prepend (dbg @ [DHandle (ref_d d) (Return None)]) (runDrivers mt en rest s1)
            | (s1, Return (Some err)) \<Rightarrow>
                (case Msgf (failFastLogger en) (MsgDriverError err) of
                   (lg, Some p) \<Rightarrow>
                     (s1, dbg @ DHandle (ref_d d) (Return (Some err)) # lg, Panicking p)
                 | (lg, None) \<Rightarrow>
                     prepend (dbg @ DHandle (ref_d d) (Return (Some err)) # lg)
                       (runDrivers mt en rest s1)))
         else prepend dbg (runDrivers mt en rest s))"

definition driverBody ::
  "('e \<Rightarrow> string \<Rightarrow> bool) \<Rightarrow> ('e, 'd) Engine \<Rightarrow> 'd sessionImpl
     \<Rightarrow> 'd sessionImpl \<times> event list \<times> flow" where
  "driverBody mt en s =
     (case runDrivers mt en (drivers en) s of
        (s1, evs, Continue) \<Rightarrow> (s1, evs @ [Send 2], Continue)
      | (s1, evs, fl) \<Rightarrow> (s1, evs, fl))"

definition handleDriver ::
  "('e \<Rightarrow> string \<Rightarrow> bool) \<Rightarrow> ('e, 'd) Engine \<Rightarrow> int \<Rightarrow> int \<Rightarrow> 'd sessionImpl
     \<Rightarrow> 'd stageResult" where
  "handleDriver mt en t0 t1 s =
     stage en 1 ''Driver'' [Log LDebug (MsgStage 1 (topic s))] t0 t1 (driverBody mt en) s"

section \<open>The output stage\<close>

text \<open>
  The body of \<open>handleOutput\<close>: the completion callback is called on the outbound data.
  The invoker takes any func value, also nil; calling a nil func panics with Go's runtime
  error (a value that implements \<open>error\<close>), and no callback runs.
\<close>

definition nilFuncCall :: pval where
  "nilFuncCall = PError (ErrOther ''invalid memory address or nil pointer dereference'')"

definition outputBody :: "'d sessionImpl \<Rightarrow> 'd sessionImpl \<times> event list \<times> flow" where
  "outputBody s =
     (case onCompletedFunc s of
        None \<Rightarrow> (s, [], Panicking nilFuncCall)
      | Some f \<Rightarrow>
          (s, [Completed (Data_out (outbound s))],
           case f (Data_out (outbound s)) of
             None \<Rightarrow> Continue
           | Some p \<Rightarrow> Panicking p))"

definition handleOutput ::
  "('e, 'd) Engine \<Rightarrow> int \<Rightarrow> int \<Rightarrow> 'd sessionImpl \<Rightarrow> 'd stageResult" where
  "handleOutput en t0 t1 s =
     stage en 2 ''Output''
       (Log LDebug (MsgStage 2 (topic s))
          # map (\<lambda>(k, v). Log LDebug (MsgSessionAttr k v)) (attributes s))
       t0 t1 outputBody s"

section \<open>One session through the dispatcher\<close>

text \<open>
  Modelled from the spec: \<open>Dispatcher.Serve\<close> is not in the sources at hand. \<open>Init\<close>
  registers \<open>handleInterceptor\<close>, \<open>handleDriver\<close> and \<open>handleOutput\<close> for the stages 0, 1
  and 2, and a session taken from the queue of a stage is given to the handler of that stage.
  \<open>serveLv0\<close> follows one session from stage 0 on and gives all events of its handlers;
  \<open>clk n\<close> are the two clock readings of the handler of stage \<open>n\<close>. A panic that leaves a
  handler ends the process.
\<close>

definition serveLv2 ::
  "('e, 'd) Engine \<Rightarrow> (nat \<Rightarrow> int \<times> int) \<Rightarrow> 'd sessionImpl \<Rightarrow> event list" where
  "serveLv2 en clk s = events (handleOutput en (fst (clk 2)) (snd (clk 2)) s)"

definition serveLv1 ::
  "('e \<Rightarrow> string \<Rightarrow> bool) \<Rightarrow> ('e, 'd) Engine \<Rightarrow> (nat \<Rightarrow> int \<times> int) \<Rightarrow> 'd sessionImpl
     \<Rightarrow> event list" where
  "serveLv1 mt en clk s =
     (let r = handleDriver mt en (fst (clk 1)) (snd (clk 1)) s
      in events r @
         (if raised r = None \<and> 2 \<in> set (sends (events r))
          then serveLv2 en clk (session r) else []))"

definition serveLv0 ::
  "('e \<Rightarrow> string \<Rightarrow> bool) \<Rightarrow> (('e, 'd) Interceptor list \<Rightarrow> ('e, 'd) Interceptor list)
     \<Rightarrow> ('e, 'd) Engine \<Rightarrow> (nat \<Rightarrow> int \<times> int) \<Rightarrow> 'd sessionImpl \<Rightarrow> event list" where
  "serveLv0 mt srt en clk s =
     (let r = handleInterceptor mt srt en (fst (clk 0)) (snd (clk 0)) s
      in events r @
         (if raised r \<noteq> None then []
          else if 1 \<in> set (sends (events r)) then serveLv1 mt en clk (session r)
          else if 2 \<in> set (sends (events r)) then serveLv2 en clk (session r)
          else []))"

text \<open>
  Modelled from the spec: one step of \<open>Dispatcher.Serve\<close>. A session taken from the queue
  of stage \<open>n\<close> is given to the handler of that stage in a goroutine of its own, and the
  handler's sends go to the queues; \<open>d\<close> is the dispatcher without the session taken, with
  all other sessions that wait. A panic that leaves the handler is recovered by nothing
  and ends the process, with every session in it: \<open>None\<close>.
\<close>

definition handlerOf ::
  "('e \<Rightarrow> string \<Rightarrow> bool) \<Rightarrow> (('e, 'd) Interceptor list \<Rightarrow> ('e, 'd) Interceptor list)
     \<Rightarrow> ('e, 'd) Engine \<Rightarrow> nat \<Rightarrow> int \<Rightarrow> int \<Rightarrow> 'd sessionImpl \<Rightarrow> 'd stageResult" where
  "handlerOf mt srt en n t0 t1 s =
     (if n = 0 then handleInterceptor mt srt en t0 t1 s
      else if n = 1 then handleDriver mt en t0 t1 s
      else handleOutput en t0 t1 s)"

definition dispatch ::
  "('e \<Rightarrow> string \<Rightarrow> bool) \<Rightarrow> (('e, 'd) Interceptor list \<Rightarrow> ('e, 'd) Interceptor list)
     \<Rightarrow> ('e, 'd) Engine \<Rightarrow> nat \<Rightarrow> int \<Rightarrow> int \<Rightarrow> 'd sessionImpl \<Rightarrow> 'd Dispatcher
     \<Rightarrow> 'd Dispatcher option" where
  "dispatch mt srt en n t0 t1 s d =
     (case raised (handlerOf mt srt en n t0 t1 s) of
        Some p \<Rightarrow> None
      | None \<Rightarrow>
          Some (deliver (events (handlerOf mt srt en n t0 t1 s))
                  (session (handlerOf mt srt en n t0 t1 s)) d))"

section \<open>What a run is compared with\<close>

text \<open>
  Calling the \<open>Handle\<close>s of a list of components one after the other, each on the session
  as the call before it left it: \<open>callsOf\<close> gives the identity of the component and the
  result of each call, \<open>sessionAfter\<close> the session after the last call.
\<close>

fun callsOf ::
  "(nat \<times> ('d sessionImpl \<Rightarrow> 'd sessionImpl \<times> 'r)) list \<Rightarrow> 'd sessionImpl \<Rightarrow> (nat \<times> 'r) list" where
  "callsOf [] s = []"
| "callsOf ((n, h) # hs) s = (n, snd (callHandle h s)) # callsOf hs (fst (callHandle h s))"

fun sessionAfter ::
  "(nat \<times> ('d sessionImpl \<Rightarrow> 'd sessionImpl \<times> 'r)) list \<Rightarrow> 'd sessionImpl \<Rightarrow> 'd sessionImpl" where
  "sessionAfter [] s = s"
| "sessionAfter ((n, h) # hs) s = sessionAfter hs (fst (callHandle h s))"

text \<open>The calls up to and including the first whose result satisfies \<open>P\<close>.\<close>

fun upToCut :: "('r \<Rightarrow> bool) \<Rightarrow> (nat \<times> 'r) list \<Rightarrow> (nat \<times> 'r) list" where
  "upToCut P [] = []"
| "upToCut P (c # cs) = (if P (snd c) then [c] else c # upToCut P cs)"

definition handlesI ::
  "('e, 'd) Interceptor list
     \<Rightarrow> (nat \<times> ('d sessionImpl \<Rightarrow> 'd sessionImpl \<times> gerror option ret)) list" where
  "handlesI its = map (\<lambda>it. (ref_i it, Handle_i it)) its"

definition handlesD ::
  "('e, 'd) Driver list
     \<Rightarrow> (nat \<times> ('d sessionImpl \<Rightarrow> 'd sessionImpl \<times> gerror option ret)) list" where
  "handlesD ds = map (\<lambda>d. (ref_d d, Handle_d d)) ds"

text \<open>
  The results after which the spec has a loop end. The interceptor chain ends on a panic,
  on the drop sentinel, and on any other error when fail-fast is on (the error is fatal);
  it ends by a panic in the first and the last case. The driver loop ends, by a panic, on
  a panic and on an error when fail-fast is on.
\<close>

definition cutsI :: "('e, 'd) Engine \<Rightarrow> gerror option ret \<Rightarrow> bool" where
  "cutsI en r =
     (case r of
        Panic p \<Rightarrow> True
      | Return None \<Rightarrow> False
      | Return (Some err) \<Rightarrow> (if err = ErrInterceptorDropped then True else failFast en))"

definition panicsI :: "('e, 'd) Engine \<Rightarrow> gerror option ret \<Rightarrow> bool" where
  "panicsI en r =
     (case r of
        Panic p \<Rightarrow> True
      | Return None \<Rightarrow> False
      | Return (Some err) \<Rightarrow> (if err = ErrInterceptorDropped then False else failFast en))"

definition panicsD :: "('e, 'd) Engine \<Rightarrow> gerror option ret \<Rightarrow> bool" where
  "panicsD en r =
     (case r of
        Panic p \<Rightarrow> True
      | Return None \<Rightarrow> False
      | Return (Some err) \<Rightarrow> failFast en)"

text \<open>User code that leaves the attribute \<open>k\<close> of the session as it finds it.\<close>

definition keepsAttribute ::
  "string \<Rightarrow> ('d sessionImpl \<Rightarrow> 'd sessionImpl \<times> 'r) \<Rightarrow> bool" where
  "keepsAttribute k h = (\<forall>s. map_of (attributes (fst (h s))) k = map_of (attributes s) k)"

section \<open>Observing a run\<close>

text \<open>The calls of \<open>Handle\<close> and of the callback among the events of a run.\<close>

definition handleCallsI :: "event list \<Rightarrow> (nat \<times> gerror option ret) list" where
  "handleCallsI evs = concat (map (\<lambda>e. case e of IHandle r x \<Rightarrow> [(r, x)] | _ \<Rightarrow> []) evs)"

definition handleCallsD :: "event list \<Rightarrow> (nat \<times> gerror option ret) list" where
  "handleCallsD evs = concat (map (\<lambda>e. case e of DHandle r x \<Rightarrow> [(r, x)] | _ \<Rightarrow> []) evs)"

definition invokedI :: "event list \<Rightarrow> nat list" where
  "invokedI evs = concat (map (\<lambda>e. case e of IHandle r _ \<Rightarrow> [r] | _ \<Rightarrow> []) evs)"

definition invokedD :: "event list \<Rightarrow> nat list" where
  "invokedD evs = concat (map (\<lambda>e. case e of DHandle r _ \<Rightarrow> [r] | _ \<Rightarrow> []) evs)"

definition completions :: "event list \<Rightarrow> (string \<rightharpoonup> gvalue) list" where
  "completions evs = concat (map (\<lambda>e. case e of Completed m \<Rightarrow> [m] | _ \<Rightarrow> []) evs)"

text \<open>
  The log events among the events of a run: the Error events that \<open>checkRecover\<close>
  writes, all of them, and the errors that interceptors returned (the drop sentinel apart)
  next to those that \<open>handleInterceptor\<close> wrote at a level.
\<close>

definition recoverLogs :: "event list \<Rightarrow> (nat \<times> gerror) list" where
  "recoverLogs evs =
     concat (map (\<lambda>e. case e of Log LError (MsgGoroutine n err) \<Rightarrow> [(n, err)] | _ \<Rightarrow> []) evs)"

definition anyLogs :: "event list \<Rightarrow> (level \<times> logmsg) list" where
  "anyLogs evs = concat (map (\<lambda>e. case e of Log l m \<Rightarrow> [(l, m)] | _ \<Rightarrow> []) evs)"

definition returnedErrors :: "event list \<Rightarrow> gerror list" where
  "returnedErrors evs =
     concat (map (\<lambda>e. case e of
                  IHandle r (Return (Some err)) \<Rightarrow>
                    (if err = ErrInterceptorDropped then [] else [err])
                | _ \<Rightarrow> []) evs)"

definition loggedErrors :: "level \<Rightarrow> event list \<Rightarrow> gerror list" where
  "loggedErrors lvl evs =
     concat (map (\<lambda>e. case e of
                  Log l (MsgInterceptorError err) \<Rightarrow> (if l = lvl then [err] else [])
                | _ \<Rightarrow> []) evs)"

section \<open>Lifecycle: Start and Stop\<close>

text \<open>
  Modelled from the spec: \<open>x.ForEach\<close> and the context's \<open>CheckTimeout\<close> are not in the
  sources at hand. \<open>ForEach\<close> visits a component list from front to back.
  \<open>CheckTimeout\<close> runs the call it is given as a task of its own and waits for it up to
  the deadline (a late return is only logged), so a call that is slow does not keep the
  next call from being issued; a call that panics does so in its own task, where nothing
  recovers it, and the process ends there. A hook is called by \<open>Start\<close> and \<open>Stop\<close>
  themselves, which have no \<open>recover\<close>: when a hook panics, the deferred function runs and
  the panic leaves \<open>Start\<close> or \<open>Stop\<close>.

  An event \<open>Hook\<close>, \<open>OnStart\<close> or \<open>OnStop\<close> is the call being issued. The user code
  behind the calls is the parameter \<open>pn\<close>: what a call panics with, if it panics.
  Go's \<open>range\<close> over the pipelines map visits every key once, in an order that is not
  fixed: \<open>order\<close> is that order.
\<close>

definition rangePipelines :: "('e, 'd) Engine \<Rightarrow> string list \<Rightarrow> nat list" where
  "rangePipelines en order = List.map_filter (pipelines en) order"

text \<open>Issuing calls one after the other, up to the first that panics.\<close>

fun runCalls :: "(event \<Rightarrow> pval option) \<Rightarrow> event list \<Rightarrow> event list \<times> pval option" where
  "runCalls pn [] = ([], None)"
| "runCalls pn (c # cs) =
     (case pn c of
        Some p \<Rightarrow> ([c], Some p)
      | None \<Rightarrow> (case runCalls pn cs of (evs, r) \<Rightarrow> (c # evs, r)))"

text \<open>The lifecycle calls of \<open>Start\<close> and of \<open>Stop\<close>, in the order of their loops.\<close>

definition startSequence :: "('e, 'd) Engine \<Rightarrow> string list \<Rightarrow> event list" where
  "startSequence en order =
     map (OnStart Plugins) (plugins en)
     @ map (OnStart Pipelines) (rangePipelines en order)
     @ map (\<lambda>d. OnStart Drivers (ref_d d)) (drivers en)
     @ map (OnStart Triggers) (triggers en)"

definition stopSequence :: "('e, 'd) Engine \<Rightarrow> string list \<Rightarrow> event list" where
  "stopSequence en order =
     map (OnStop Triggers) (triggers en)
     @ map (\<lambda>d. OnStop Drivers (ref_d d)) (drivers en)
     @ map (OnStop Pipelines) (rangePipelines en order)
     @ map (OnStop Plugins) (plugins en)"

text \<open>
  The deferred functions: the after hooks, for \<open>Stop\<close> the shutdown signal, and the
  closing message. \<open>pending\<close> is the panic during which the function runs, if any; a hook
  that panics here ends the function with its own panic.
\<close>

definition deferredStart ::
  "(event \<Rightarrow> pval option) \<Rightarrow> ('e, 'd) Engine \<Rightarrow> pval option \<Rightarrow> event list \<times> pval option" where
  "deferredStart pn en pending =
     (case runCalls pn (map Hook (startAfterHooks en)) of
        (evs, Some q) \<Rightarrow> (evs, Some q)
      | (evs, None) \<Rightarrow> (evs @ [Log LInfo (MsgEngineStart True)], pending))"

definition deferredStop ::
  "(event \<Rightarrow> pval option) \<Rightarrow> ('e, 'd) Engine \<Rightarrow> pval option \<Rightarrow> event list \<times> pval option" where
  "deferredStop pn en pending =
     (case runCalls pn (map Hook (stopAfterHooks en)) of
        (evs, Some q) \<Rightarrow> (evs, Some q)
      | (evs, None) \<Rightarrow> (evs @ [Shutdown, Log LInfo (MsgEngineStop True)], pending))"

text \<open>
  \<open>Start\<close> and \<open>Stop\<close>: the opening message, the before hooks, the lifecycle calls, and
  the deferred function. The result is the events and the panic that ends the run, if one does.
\<close>

definition Start ::
  "('e, 'd) Engine \<Rightarrow> string list \<Rightarrow> (event \<Rightarrow> pval option) \<Rightarrow> event list \<times> pval option" where
  "Start en order pn =
     (case runCalls pn (map Hook (startBeforeHooks en)) of
        (hb, Some p) \<Rightarrow>
          (case deferredStart pn en (Some p) of
             (dv, r) \<Rightarrow> (Log LInfo (MsgEngineStart False) # hb @ dv, r))
      | (hb, None) \<Rightarrow>
          (case runCalls pn (startSequence en order) of
             (lc, Some p) \<Rightarrow> (Log LInfo (MsgEngineStart False) # hb @ lc, Some p)
           | (lc, None) \<Rightarrow>
               (case deferredStart pn en None of
                  (dv, r) \<Rightarrow> (Log LInfo (MsgEngineStart False) # hb @ lc @ dv, r))))"

definition Stop ::
  "('e, 'd) Engine \<Rightarrow> string list \<Rightarrow> (event \<Rightarrow> pval option) \<Rightarrow> event list \<times> pval option" where
  "Stop en order pn =
     (case runCalls pn (map Hook (stopBeforeHooks en)) of
        (hb, Some p) \<Rightarrow>
          (case deferredStop pn en (Some p) of
             (dv, r) \<Rightarrow> (Log LInfo (MsgEngineStop False) # hb @ dv, r))
      | (hb, None) \<Rightarrow>
          (case runCalls pn (stopSequence en order) of
             (lc, Some p) \<Rightarrow> (Log LInfo (MsgEngineStop False) # hb @ lc, Some p)
           | (lc, None) \<Rightarrow>
               (case deferredStop pn en None of
                  (dv, r) \<Rightarrow> (Log LInfo (MsgEngineStop False) # hb @ lc @ dv, r))))"

text \<open>The lifecycle calls among the events: of one role, and the roles in order.\<close>

definition startCalls :: "role \<Rightarrow> event list \<Rightarrow> nat list" where
  "startCalls r evs =
     concat (map (\<lambda>e. case e of OnStart r' c \<Rightarrow> if r' = r then [c] else [] | _ \<Rightarrow> []) evs)"

definition stopCalls :: "role \<Rightarrow> event list \<Rightarrow> nat list" where
  "stopCalls r evs =
     concat (map (\<lambda>e. case e of OnStop r' c \<Rightarrow> if r' = r then [c] else [] | _ \<Rightarrow> []) evs)"

definition startRoles :: "event list \<Rightarrow> role list" where
  "startRoles evs = concat (map (\<lambda>e. case e of OnStart r _ \<Rightarrow> [r] | _ \<Rightarrow> []) evs)"

definition stopRoles :: "event list \<Rightarrow> role list" where
  "stopRoles evs = concat (map (\<lambda>e. case e of OnStop r _ \<Rightarrow> [r] | _ \<Rightarrow> []) evs)"

definition lifecycle :: "event list \<Rightarrow> event list" where
  "lifecycle evs =
     filter (\<lambda>e. case e of OnStart r c \<Rightarrow> True | OnStop r c \<Rightarrow> True | _ \<Rightarrow> False) evs"

fun rank :: "role \<Rightarrow> nat" where
  "rank Plugins = 0"
| "rank Pipelines = 1"
| "rank Drivers = 2"
| "rank Triggers = 3"

section \<open>Example components\<close>

text \<open>
  Small concrete components on which the theorems below are exercised: topic expressions
  that match by equality, handlers that return nil, drop, fail or panic, and a session
  with topic \<open>x\<close>.
\<close>

definition exactTopic :: "string \<Rightarrow> string \<Rightarrow> bool" where
  "exactTopic e tp = (e = tp)"

definition nilHandle :: "nat sessionImpl \<Rightarrow> nat sessionImpl \<times> gerror option ret" where
  "nilHandle s = (s, Return None)"

definition dropHandle :: "nat sessionImpl \<Rightarrow> nat sessionImpl \<times> gerror option ret" where
  "dropHandle s = (s, Return (Some ErrInterceptorDropped))"

definition errHandle :: "nat sessionImpl \<Rightarrow> nat sessionImpl \<times> gerror option ret" where
  "errHandle s = (s, Return (Some (ErrOther ''failed'')))"

definition panicHandle :: "nat sessionImpl \<Rightarrow> nat sessionImpl \<times> gerror option ret" where
  "panicHandle s = (s, Panic (PValue (VString ''boom'')))"

definition exSession :: "nat sessionImpl" where
  "exSession = newSession 100 \<lparr> topic_ev = ''x'', data_ev = 7 \<rparr> (Some (\<lambda>m. None))"

definition exEngine ::
  "bool \<Rightarrow> (string, nat) Interceptor list \<Rightarrow> (string, nat) Driver list \<Rightarrow> (string, nat) Engine" where
  "exEngine ff its ds =
     \<lparr> plugins = [1], pipelines = [''udp'' \<mapsto> 2], drivers = ds, interceptors = its,
       triggers = [3], startBeforeHooks = [], startAfterHooks = [], stopBeforeHooks = [],
       stopAfterHooks = [], failFast = ff, logV = False \<rparr>"

definition exInterceptor ::
  "nat \<Rightarrow> int \<Rightarrow> (nat sessionImpl \<Rightarrow> nat sessionImpl \<times> gerror option ret)
     \<Rightarrow> (string, nat) Interceptor" where
  "exInterceptor r p h = \<lparr> ref_i = r, GetPriority = p, GetTopicExpr_i = [''x''], Handle_i = h \<rparr>"

definition exDriver ::
  "nat \<Rightarrow> (nat sessionImpl \<Rightarrow> nat sessionImpl \<times> gerror option ret) \<Rightarrow> (string, nat) Driver" where
  "exDriver r h = \<lparr> ref_d = r, GetTopicExpr_d = [''x''], Handle_d = h \<rparr>"

definition exClock :: "nat \<Rightarrow> int \<times> int" where
  "exClock n = (100 + 10 * int n, 105 + 10 * int n)"

definition panicErrHandle :: "nat sessionImpl \<Rightarrow> nat sessionImpl \<times> gerror option ret" where
  "panicErrHandle s = (s, Panic (PError (ErrOther ''fault'')))"

definition exPanics :: "event \<Rightarrow> pval option" where
  "exPanics c =
     (case c of
        OnStart r n \<Rightarrow> (if r = Plugins \<and> n = 1 then Some (PValue (VString ''boom'')) else None)
      | Hook h \<Rightarrow> (if h = 9 then Some (PValue (VString ''hook'')) else None)
      | _ \<Rightarrow> None)"

definition exDispatcher :: "nat Dispatcher" where
  "exDispatcher = \<lparr> lv0 = [], lv1 = [exSession], lv2 = [] \<rparr>"

lemmas ex_defs = exactTopic_def nilHandle_def dropHandle_def errHandle_def panicHandle_def
  exSession_def exEngine_def exInterceptor_def exDriver_def exClock_def

section \<open>Events of a run: basic facts\<close>

lemma callHandle_private:
  "callHandle h s = (s1, r) \<Longrightarrow>
     timestamp s1 = timestamp s \<and> topic s1 = topic s \<and> onCompletedFunc s1 = onCompletedFunc s"
  by (auto simp: callHandle_def split: prod.splits)

lemma callHandle_result: "callHandle h s = (s1, r) \<Longrightarrow> r = snd (h s)"
  by (auto simp: callHandle_def split: prod.splits)

lemma invokedI_simps [simp]:
  "invokedI [] = []"
  "invokedI (IHandle r x # evs) = r # invokedI evs"
  "invokedI (Log l m # evs) = invokedI evs"
  "invokedI (SetAttr k v # evs) = invokedI evs"
  "invokedI (DHandle r x # evs) = invokedI evs"
  "invokedI (Send n # evs) = invokedI evs"
  "invokedI (Completed d # evs) = invokedI evs"
  "invokedI (evs @ evs') = invokedI evs @ invokedI evs'"
  by (simp_all add: invokedI_def)

lemma invokedD_simps [simp]:
  "invokedD [] = []"
  "invokedD (DHandle r x # evs) = r # invokedD evs"
  "invokedD (Log l m # evs) = invokedD evs"
  "invokedD (SetAttr k v # evs) = invokedD evs"
  "invokedD (IHandle r x # evs) = invokedD evs"
  "invokedD (Send n # evs) = invokedD evs"
  "invokedD (Completed d # evs) = invokedD evs"
  "invokedD (evs @ evs') = invokedD evs @ invokedD evs'"
  by (simp_all add: invokedD_def)

lemma completions_simps [simp]:
  "completions [] = []"
  "completions (Completed d # evs) = d # completions evs"
  "completions (Log l m # evs) = completions evs"
  "completions (SetAttr k v # evs) = completions evs"
  "completions (IHandle r x # evs) = completions evs"
  "completions (DHandle r x # evs) = completions evs"
  "completions (Send n # evs) = completions evs"
  "completions (evs @ evs') = completions evs @ completions evs'"
  by (simp_all add: completions_def)

lemma sends_simps [simp]:
  "sends [] = []"
  "sends (Send n # evs) = n # sends evs"
  "sends (Log l m # evs) = sends evs"
  "sends (SetAttr k v # evs) = sends evs"
  "sends (IHandle r x # evs) = sends evs"
  "sends (DHandle r x # evs) = sends evs"
  "sends (Completed d # evs) = sends evs"
  "sends (evs @ evs') = sends evs @ sends evs'"
  by (simp_all add: sends_def)

lemma OnIfLogV_Log [simp]:
  "invokedI (OnIfLogV en (map (\<lambda>x. Log l (f x)) xs)) = []"
  "invokedD (OnIfLogV en (map (\<lambda>x. Log l (f x)) xs)) = []"
  "completions (OnIfLogV en (map (\<lambda>x. Log l (f x)) xs)) = []"
  "sends (OnIfLogV en (map (\<lambda>x. Log l (f x)) xs)) = []"
  by (induction xs) (auto simp: OnIfLogV_def)

lemma OnIfLogV_Log1 [simp]:
  "invokedI (OnIfLogV en [Log l m]) = []"
  "invokedD (OnIfLogV en [Log l m]) = []"
  "completions (OnIfLogV en [Log l m]) = []"
  "sends (OnIfLogV en [Log l m]) = []"
  by (auto simp: OnIfLogV_def)

lemma runMatches_private:
  "runMatches en its s = (s', evs, fl) \<Longrightarrow>
     timestamp s' = timestamp s \<and> topic s' = topic s \<and> onCompletedFunc s' = onCompletedFunc s"
proof (induction its arbitrary: s s' evs fl)
  case Nil
  then show ?case by simp
next
  case (Cons it rest)
  obtain s1 r where h: "callHandle (Handle_i it) s = (s1, r)" by (cases "callHandle (Handle_i it) s")
  note p = callHandle_private[OF h]
  show ?case
  proof (cases "runMatches en rest s1")
    case (fields s2 evs2 fl2)
    note ih = Cons.IH[OF fields]
    from Cons.prems h fields ih p show ?thesis
      by (auto simp: prepend_def Msgf_def failFastLogger_def
               split: ret.splits option.splits if_splits)
  qed
qed

lemma runMatches_events:
  "runMatches en its s = (s', evs, fl) \<Longrightarrow>
     sends evs = (if fl = Returned then [2] else []) \<and> invokedD evs = [] \<and> completions evs = []
     \<and> invokedI evs = map ref_i (take (length (invokedI evs)) its)
     \<and> (fl = Continue \<longrightarrow> invokedI evs = map ref_i its)"
proof (induction its arbitrary: s s' evs fl)
  case Nil
  then show ?case by simp
next
  case (Cons it rest)
  obtain s1 r where h: "callHandle (Handle_i it) s = (s1, r)" by (cases "callHandle (Handle_i it) s")
  show ?case
  proof (cases "runMatches en rest s1")
    case (fields s2 evs2 fl2)
    note ih = Cons.IH[OF fields]
    from Cons.prems h fields ih show ?thesis
      by (auto simp: prepend_def Msgf_def failFastLogger_def
               split: ret.splits option.splits if_splits)
  qed
qed

lemma runMatches_drop:
  "runMatches en its s = (s', evs, fl) \<Longrightarrow>
     IHandle r (Return (Some ErrInterceptorDropped)) \<in> set evs \<Longrightarrow>
     fl = Returned
     \<and> Data_out (outbound s') ''error'' = Some (VString ''InterceptorDropped'')
     \<and> (\<exists>pre. evs = pre @ [IHandle r (Return (Some ErrInterceptorDropped)),
                             Log LDebug (MsgDropped ErrInterceptorDropped), Send 2])"
proof (induction its arbitrary: s s' evs fl)
  case Nil
  then show ?case by simp
next
  case (Cons it rest)
  obtain s1 x where h: "callHandle (Handle_i it) s = (s1, x)" by (cases "callHandle (Handle_i it) s")
  show ?case
  proof (cases "runMatches en rest s1")
    case (fields s2 evs2 fl2)
    note ih = Cons.IH[OF fields]
    from Cons.prems h fields ih show ?thesis
      by (auto simp: prepend_def Msgf_def failFastLogger_def AddDataField_def
               split: ret.splits option.splits if_splits intro: exI[of _ "_ # _"])
  qed
qed

lemma runMatches_Returned:
  "runMatches en its s = (s', evs, fl) \<Longrightarrow> fl = Returned \<Longrightarrow>
     (\<exists>r. IHandle r (Return (Some ErrInterceptorDropped)) \<in> set evs)"
proof (induction its arbitrary: s s' evs fl)
  case Nil
  then show ?case by simp
next
  case (Cons it rest)
  obtain s1 x where h: "callHandle (Handle_i it) s = (s1, x)" by (cases "callHandle (Handle_i it) s")
  show ?case
  proof (cases "runMatches en rest s1")
    case (fields s2 evs2 fl2)
    note ih = Cons.IH[OF fields]
    from Cons.prems h fields ih show ?thesis
      by (auto simp: prepend_def Msgf_def failFastLogger_def 
               split: ret.splits option.splits if_splits)
  qed
qed

lemma runMatches_Continue:
  "runMatches en its s = (s', evs, fl) \<Longrightarrow> \<not> failFast en \<Longrightarrow>
     \<forall>it\<in>set its. \<forall>x. \<exists>e. snd (Handle_i it x) = Return e \<and> e \<noteq> Some ErrInterceptorDropped \<Longrightarrow>
     fl = Continue"
proof (induction its arbitrary: s s' evs fl)
  case Nil
  then show ?case by simp
next
  case (Cons it rest)
  obtain s1 x where h: "callHandle (Handle_i it) s = (s1, x)" by (cases "callHandle (Handle_i it) s")
  from Cons.prems(3) obtain e where e: "snd (Handle_i it s) = Return e" "e \<noteq> Some ErrInterceptorDropped"
    by fastforce
  with callHandle_result[OF h] have x: "x = Return e" by simp
  show ?case
  proof (cases "runMatches en rest s1")
    case (fields s2 evs2 fl2)
    from Cons.prems have "fl2 = Continue" using Cons.IH[OF fields] by simp
    with Cons.prems h fields x e show ?thesis
      by (auto simp: prepend_def Msgf_def failFastLogger_def 
               split: ret.splits option.splits if_splits)
  qed
qed

lemma runDrivers_private:
  "runDrivers mt en ds s = (s', evs, fl) \<Longrightarrow>
     timestamp s' = timestamp s \<and> topic s' = topic s \<and> onCompletedFunc s' = onCompletedFunc s"
proof (induction ds arbitrary: s s' evs fl)
  case Nil
  then show ?case by simp
next
  case (Cons d rest)
  obtain s1 r where h: "callHandle (Handle_d d) s = (s1, r)" by (cases "callHandle (Handle_d d) s")
  note p = callHandle_private[OF h]
  obtain s2 evs2 fl2 where f1: "runDrivers mt en rest s1 = (s2, evs2, fl2)"
    by (cases "runDrivers mt en rest s1")
  obtain s3 evs3 fl3 where f2: "runDrivers mt en rest s = (s3, evs3, fl3)"
    by (cases "runDrivers mt en rest s")
  from Cons.prems h f1 f2 Cons.IH[OF f1] Cons.IH[OF f2] p show ?case
    by (auto simp: prepend_def Msgf_def failFastLogger_def Let_def
             split: ret.splits option.splits if_splits)
qed

lemma runDrivers_events:
  "runDrivers mt en ds s = (s', evs, fl) \<Longrightarrow>
     sends evs = [] \<and> invokedI evs = [] \<and> completions evs = [] \<and> fl \<noteq> Returned
     \<and> invokedD evs = map ref_d (take (length (invokedD evs))
           (filter (\<lambda>d. anyTopicMatches mt (GetTopicExpr_d d) (topic s)) ds))
     \<and> (fl = Continue \<longrightarrow> invokedD evs = map ref_d 
           (filter (\<lambda>d. anyTopicMatches mt (GetTopicExpr_d d) (topic s)) ds))"
proof (induction ds arbitrary: s s' evs fl)
  case Nil
  then show ?case by simp
next
  case (Cons d rest)
  obtain s1 r where h: "callHandle (Handle_d d) s = (s1, r)" by (cases "callHandle (Handle_d d) s")
  note p = callHandle_private[OF h]
  obtain s2 evs2 fl2 where f1: "runDrivers mt en rest s1 = (s2, evs2, fl2)"
    by (cases "runDrivers mt en rest s1")
  obtain s3 evs3 fl3 where f2: "runDrivers mt en rest s = (s3, evs3, fl3)"
    by (cases "runDrivers mt en rest s")
  from Cons.prems h f1 f2 Cons.IH[OF f1] Cons.IH[OF f2] p show ?case
    by (auto simp: prepend_def Msgf_def failFastLogger_def Let_def
             split: ret.splits option.splits if_splits)
qed

lemma runDrivers_Continue:
  "runDrivers mt en ds s = (s', evs, fl) \<Longrightarrow> \<not> failFast en \<Longrightarrow>
     \<forall>d\<in>set ds. \<forall>x. \<exists>e. snd (Handle_d d x) = Return e \<Longrightarrow>
     fl = Continue"
proof (induction ds arbitrary: s s' evs fl)
  case Nil
  then show ?case by simp
next
  case (Cons d rest)
  obtain s1 x where h: "callHandle (Handle_d d) s = (s1, x)" by (cases "callHandle (Handle_d d) s")
  from Cons.prems(3) obtain e where e: "snd (Handle_d d s) = Return e"
    by fastforce
  with callHandle_result[OF h] have x: "x = Return e" by simp
  obtain s2 evs2 fl2 where f1: "runDrivers mt en rest s1 = (s2, evs2, fl2)"
    by (cases "runDrivers mt en rest s1")
  obtain s3 evs3 fl3 where f2: "runDrivers mt en rest s = (s3, evs3, fl3)"
    by (cases "runDrivers mt en rest s")
  from Cons.prems have "fl2 = Continue" "fl3 = Continue"
    using Cons.IH[OF f1] Cons.IH[OF f2] by simp_all
  with Cons.prems h f1 f2 x show ?case
    by (auto simp: prepend_def Msgf_def failFastLogger_def Let_def
             split: ret.splits option.splits if_splits)
qed

lemma stage_fields:
  "body (AddAttribute s (name @ ''.Start'') (VTime t0)) = (s1, evs, fl) \<Longrightarrow>
     session (stage en n name dbg t0 t1 body s)
       = AddAttribute s1 (name @ ''.End'') (VDuration (Escaped s1 t1))
     \<and> events (stage en n name dbg t0 t1 body s)
       = OnIfLogV en dbg @ [SetAttr (name @ ''.Start'') (VTime t0)] @ evs
           @ [SetAttr (name @ ''.End'') (VDuration (Escaped s1 t1))]
           @ fst (checkRecover en (recover fl) n)
     \<and> raised (stage en n name dbg t0 t1 body s) = snd (checkRecover en (recover fl) n)"
  by (simp add: stage_def split: prod.splits)

lemma checkRecover_events [simp]:
  "sends (fst (checkRecover en r n)) = []"
  "invokedI (fst (checkRecover en r n)) = []"
  "invokedD (fst (checkRecover en r n)) = []"
  "completions (fst (checkRecover en r n)) = []"
  by (auto simp: checkRecover_def split: option.splits pval.splits)

lemma AddAttribute_fields [simp]:
  "timestamp (AddAttribute s k v) = timestamp s"
  "topic (AddAttribute s k v) = topic s"
  "outbound (AddAttribute s k v) = outbound s"
  "inbound (AddAttribute s k v) = inbound s"
  "onCompletedFunc (AddAttribute s k v) = onCompletedFunc s"
  "map_of (attributes (AddAttribute s k v)) k = Some v"
  by (simp_all add: AddAttribute_def update_conv')

lemma interceptorBody_facts:
  assumes "interceptorBody mt srt en s = (s', evs, fl)"
  shows "timestamp s' = timestamp s" "topic s' = topic s" "onCompletedFunc s' = onCompletedFunc s"
    "sends evs = (case fl of Continue \<Rightarrow> [1] | Returned \<Rightarrow> [2] | Panicking p \<Rightarrow> [])"
    "invokedD evs = []" "completions evs = []"
    "invokedI evs = map ref_i (take (length (invokedI evs)) (srt (findMatches mt en s)))"
    "fl = Continue \<Longrightarrow> invokedI evs = map ref_i (srt (findMatches mt en s))"
proof -
  obtain s1 evs1 fl1 where r: "runMatches en (srt (findMatches mt en s)) s = (s1, evs1, fl1)"
    by (cases "runMatches en (srt (findMatches mt en s)) s")
  from assms r have eq: "s' = s1" "fl = fl1"
    "evs = matchLog mt en s @ evs1 @ (if fl1 = Continue then [Send 1] else [])"
    by (auto simp: interceptorBody_def split: flow.splits)
  note p = runMatches_private[OF r] and e = runMatches_events[OF r]
  show "timestamp s' = timestamp s" "topic s' = topic s" "onCompletedFunc s' = onCompletedFunc s"
    using p eq by simp_all
  show "sends evs = (case fl of Continue \<Rightarrow> [1] | Returned \<Rightarrow> [2] | Panicking p \<Rightarrow> [])"
    using e eq by (auto simp: matchLog_def split: flow.splits)
  show "invokedD evs = []" "completions evs = []"
    using e eq by (auto simp: matchLog_def)
  show "invokedI evs = map ref_i (take (length (invokedI evs)) (srt (findMatches mt en s)))"
    using e eq by (auto simp: matchLog_def)
  show "fl = Continue \<Longrightarrow> invokedI evs = map ref_i (srt (findMatches mt en s))"
    using e eq by (auto simp: matchLog_def)
qed

lemma driverBody_facts:
  assumes "driverBody mt en s = (s', evs, fl)"
  shows "timestamp s' = timestamp s" "topic s' = topic s" "onCompletedFunc s' = onCompletedFunc s"
    "sends evs = (case fl of Continue \<Rightarrow> [2] | _ \<Rightarrow> [])"
    "invokedI evs = []" "completions evs = []" "fl \<noteq> Returned"
    "invokedD evs = map ref_d (take (length (invokedD evs))
           (filter (\<lambda>d. anyTopicMatches mt (GetTopicExpr_d d) (topic s)) (drivers en)))"
    "fl = Continue \<Longrightarrow> invokedD evs = map ref_d
           (filter (\<lambda>d. anyTopicMatches mt (GetTopicExpr_d d) (topic s)) (drivers en))"
proof -
  obtain s1 evs1 fl1 where r: "runDrivers mt en (drivers en) s = (s1, evs1, fl1)"
    by (cases "runDrivers mt en (drivers en) s")
  from assms r have eq: "s' = s1" "fl = fl1"
    "evs = evs1 @ (if fl1 = Continue then [Send 2] else [])"
    by (auto simp: driverBody_def split: flow.splits)
  note p = runDrivers_private[OF r] and e = runDrivers_events[OF r]
  show "timestamp s' = timestamp s" "topic s' = topic s" "onCompletedFunc s' = onCompletedFunc s"
    using p eq by simp_all
  show "sends evs = (case fl of Continue \<Rightarrow> [2] | _ \<Rightarrow> [])"
    using e eq by (auto split: flow.splits)
  show "invokedI evs = []" "completions evs = []" "fl \<noteq> Returned"
    using e eq by auto
  show "invokedD evs = map ref_d (take (length (invokedD evs))
           (filter (\<lambda>d. anyTopicMatches mt (GetTopicExpr_d d) (topic s)) (drivers en)))"
    using e eq by auto
  show "fl = Continue \<Longrightarrow> invokedD evs = map ref_d
           (filter (\<lambda>d. anyTopicMatches mt (GetTopicExpr_d d) (topic s)) (drivers en))"
    using e eq by auto
qed

lemma OnIfLogV_logs:
  assumes "\<forall>e\<in>set dbg. \<exists>l m. e = Log l m"
  shows "invokedI (OnIfLogV en dbg) = []" "invokedD (OnIfLogV en dbg) = []"
    "completions (OnIfLogV en dbg) = []" "sends (OnIfLogV en dbg) = []"
    "IHandle r x \<notin> set (OnIfLogV en dbg)"
  using assms by (induction dbg; auto simp: OnIfLogV_def split: if_splits)+

lemma checkRecover_no_handle [simp]: "IHandle r x \<notin> set (fst (checkRecover en p n))"
  by (auto simp: checkRecover_def split: option.splits pval.splits)

lemma stage_observers:
  assumes "body (AddAttribute s (name @ ''.Start'') (VTime t0)) = (s1, evs, fl)"
    and "\<forall>e\<in>set dbg. \<exists>l m. e = Log l m"
  shows "invokedI (events (stage en n name dbg t0 t1 body s)) = invokedI evs"
    "invokedD (events (stage en n name dbg t0 t1 body s)) = invokedD evs"
    "completions (events (stage en n name dbg t0 t1 body s)) = completions evs"
    "sends (events (stage en n name dbg t0 t1 body s)) = sends evs"
    "IHandle r x \<in> set (events (stage en n name dbg t0 t1 body s)) \<longleftrightarrow> IHandle r x \<in> set evs"
  using stage_fields[where body=body and en=en and n=n and dbg=dbg and ?t1.0=t1, OF assms(1)] OnIfLogV_logs[where en=en, OF assms(2)]
  by simp_all

lemma outputBody_facts:
  "outputBody s = (s', evs, fl) \<Longrightarrow>
     s' = s \<and> fl \<noteq> Returned \<and> sends evs = [] \<and> invokedI evs = [] \<and> invokedD evs = []
     \<and> completions evs
         = (case onCompletedFunc s of None \<Rightarrow> [] | Some f \<Rightarrow> [Data_out (outbound s)])"
  by (auto simp: outputBody_def split: option.splits)

lemma handleOutput_observers:
  "invokedI (events (handleOutput en t0 t1 s)) = []"
  "invokedD (events (handleOutput en t0 t1 s)) = []"
  "sends (events (handleOutput en t0 t1 s)) = []"
  "completions (events (handleOutput en t0 t1 s))
     = (case onCompletedFunc s of None \<Rightarrow> [] | Some f \<Rightarrow> [Data_out (outbound s)])"
proof -
  let ?s0 = "AddAttribute s (''Output'' @ ''.Start'') (VTime t0)"
  obtain s1 evs fl where b: "outputBody ?s0 = (s1, evs, fl)" by (cases "outputBody ?s0")
  have dbg: "\<forall>e\<in>set (Log LDebug (MsgStage 2 (topic s))
          # map (\<lambda>(k, v). Log LDebug (MsgSessionAttr k v)) (attributes s)). \<exists>l m. e = Log l m"
    by auto
  note o = stage_observers[where body=outputBody and en=en and n=2 and ?t1.0=t1, OF b dbg] and f = outputBody_facts[OF b]
  show "invokedI (events (handleOutput en t0 t1 s)) = []"
    "invokedD (events (handleOutput en t0 t1 s)) = []"
    "sends (events (handleOutput en t0 t1 s)) = []"
    "completions (events (handleOutput en t0 t1 s))
       = (case onCompletedFunc s of None \<Rightarrow> [] | Some f \<Rightarrow> [Data_out (outbound s)])"
    using o f by (simp_all add: handleOutput_def split: option.splits)
qed

lemma matchLog_no_handle [simp]: "IHandle r x \<notin> set (matchLog mt en s)"
  by (auto simp: matchLog_def OnIfLogV_def)

lemma sort_key_contract:
  "sort_contract (sort_key GetPriority :: ('e, 'd) Interceptor list \<Rightarrow> ('e, 'd) Interceptor list)"
proof -
  have "sorted_wrt (\<lambda>a b. GetPriority a \<le> GetPriority b) (sort_key GetPriority xs)"
    for xs :: "('e, 'd) Interceptor list"
    using sorted_sort_key[of GetPriority xs] by (simp only: sorted_map)
  then show ?thesis
    by (simp add: sort_contract_def Less_def not_less)
qed

lemma findMatches_AddAttribute [simp]:
  "findMatches mt en (AddAttribute s k v) = findMatches mt en s"
  by (simp add: findMatches_def)

lemma sorted_earlier:
  assumes "sorted (map f L)" "a \<in> set L" "j < length L" "f a < f (L ! j)"
  shows "\<exists>i<j. L ! i = a"
proof -
  from assms(2) obtain i where i: "i < length L" "L ! i = a"
    by (auto simp: in_set_conv_nth)
  have "i < j"
  proof (rule ccontr)
    assume "\<not> i < j"
    then have "j \<le> i" by simp
    with assms(1) i(1) have "map f L ! j \<le> map f L ! i"
      by (simp add: sorted_iff_nth_mono)
    with i assms(3,4) show False by simp
  qed
  with i show ?thesis by blast
qed

lemma sort_contract_sorted:
  "sort_contract srt \<Longrightarrow> sorted (map GetPriority (srt xs)) \<and> mset (srt xs) = mset xs"
  by (simp add: sort_contract_def Less_def not_less sorted_map)

lemma handleInterceptor_body:
  assumes "interceptorBody mt srt en (AddAttribute s ''Interceptor.Start'' (VTime t0)) = (s1, evs, fl)"
  shows "invokedI (events (handleInterceptor mt srt en t0 t1 s)) = invokedI evs"
    "invokedD (events (handleInterceptor mt srt en t0 t1 s)) = []"
    "completions (events (handleInterceptor mt srt en t0 t1 s)) = []"
    "sends (events (handleInterceptor mt srt en t0 t1 s))
       = (case fl of Continue \<Rightarrow> [1] | Returned \<Rightarrow> [2] | Panicking p \<Rightarrow> [])"
    "raised (handleInterceptor mt srt en t0 t1 s) = snd (checkRecover en (recover fl) 0)"
    "invokedI evs = map ref_i (take (length (invokedI evs)) (srt (findMatches mt en s)))"
    "fl = Continue \<Longrightarrow> invokedI evs = map ref_i (srt (findMatches mt en s))"
proof -
  have b: "interceptorBody mt srt en (AddAttribute s (''Interceptor'' @ ''.Start'') (VTime t0))
             = (s1, evs, fl)"
    using assms by simp
  have dbg: "\<forall>e\<in>set [Log LDebug (MsgStage 0 (topic s))]. \<exists>l m. e = Log l m" by simp
  note o = stage_observers[where body="interceptorBody mt srt en" and en=en and n=0
      and ?t1.0=t1, OF b dbg]
  note f = stage_fields[where body="interceptorBody mt srt en" and en=en and n=0
      and dbg="[Log LDebug (MsgStage 0 (topic s))]" and ?t1.0=t1, OF b]
  note i = interceptorBody_facts[OF assms]
  show "invokedI (events (handleInterceptor mt srt en t0 t1 s)) = invokedI evs"
    "invokedD (events (handleInterceptor mt srt en t0 t1 s)) = []"
    "completions (events (handleInterceptor mt srt en t0 t1 s)) = []"
    "sends (events (handleInterceptor mt srt en t0 t1 s))
       = (case fl of Continue \<Rightarrow> [1] | Returned \<Rightarrow> [2] | Panicking p \<Rightarrow> [])"
    "raised (handleInterceptor mt srt en t0 t1 s) = snd (checkRecover en (recover fl) 0)"
    using o f i(4,5,6) by (simp_all add: handleInterceptor_def)
  show "invokedI evs = map ref_i (take (length (invokedI evs)) (srt (findMatches mt en s)))"
    "fl = Continue \<Longrightarrow> invokedI evs = map ref_i (srt (findMatches mt en s))"
    using i(7,8) by simp_all
qed

lemma handleDriver_body:
  assumes "driverBody mt en (AddAttribute s ''Driver.Start'' (VTime t0)) = (s1, evs, fl)"
  shows "invokedD (events (handleDriver mt en t0 t1 s)) = invokedD evs"
    "invokedI (events (handleDriver mt en t0 t1 s)) = []"
    "completions (events (handleDriver mt en t0 t1 s)) = []"
    "sends (events (handleDriver mt en t0 t1 s)) = (case fl of Continue \<Rightarrow> [2] | _ \<Rightarrow> [])"
    "raised (handleDriver mt en t0 t1 s) = snd (checkRecover en (recover fl) 1)"
    "invokedD evs = map ref_d (take (length (invokedD evs))
           (filter (\<lambda>d. anyTopicMatches mt (GetTopicExpr_d d) (topic s)) (drivers en)))"
    "fl = Continue \<Longrightarrow> invokedD evs = map ref_d
           (filter (\<lambda>d. anyTopicMatches mt (GetTopicExpr_d d) (topic s)) (drivers en))"
    "fl \<noteq> Returned"
proof -
  have b: "driverBody mt en (AddAttribute s (''Driver'' @ ''.Start'') (VTime t0)) = (s1, evs, fl)"
    using assms by simp
  have dbg: "\<forall>e\<in>set [Log LDebug (MsgStage 1 (topic s))]. \<exists>l m. e = Log l m" by simp
  note o = stage_observers[where body="driverBody mt en" and en=en and n=1
      and ?t1.0=t1, OF b dbg]
  note f = stage_fields[where body="driverBody mt en" and en=en and n=1
      and dbg="[Log LDebug (MsgStage 1 (topic s))]" and ?t1.0=t1, OF b]
  note i = driverBody_facts[OF assms]
  show "invokedD (events (handleDriver mt en t0 t1 s)) = invokedD evs"
    "invokedI (events (handleDriver mt en t0 t1 s)) = []"
    "completions (events (handleDriver mt en t0 t1 s)) = []"
    "sends (events (handleDriver mt en t0 t1 s)) = (case fl of Continue \<Rightarrow> [2] | _ \<Rightarrow> [])"
    "raised (handleDriver mt en t0 t1 s) = snd (checkRecover en (recover fl) 1)"
    using o f i(4,5,6) by (simp_all add: handleDriver_def)
  show "invokedD evs = map ref_d (take (length (invokedD evs))
           (filter (\<lambda>d. anyTopicMatches mt (GetTopicExpr_d d) (topic s)) (drivers en)))"
    "fl = Continue \<Longrightarrow> invokedD evs = map ref_d
           (filter (\<lambda>d. anyTopicMatches mt (GetTopicExpr_d d) (topic s)) (drivers en))"
    "fl \<noteq> Returned"
    using i(7,8,9) by simp_all
qed

lemma runMatches_error_step:
  assumes "\<not> failFast en" "callHandle (Handle_i it) s = (s1, Return (Some err))"
    "err \<noteq> ErrInterceptorDropped"
  shows "runMatches en (it # rest) s
       = prepend [IHandle (ref_i it) (Return (Some err)), Log LError (MsgInterceptorError err)]
           (runMatches en rest s1)"
  using assms by (simp add: Msgf_def failFastLogger_def)

lemma runMatches_no_panic:
  "runMatches en its s = (s', evs, fl) \<Longrightarrow> \<not> failFast en \<Longrightarrow>
     \<forall>it\<in>set its. \<forall>x. \<exists>e. snd (Handle_i it x) = Return e \<Longrightarrow>
     fl = Continue \<or> fl = Returned"
proof (induction its arbitrary: s s' evs fl)
  case Nil
  then show ?case by simp
next
  case (Cons it rest)
  obtain s1 x where h: "callHandle (Handle_i it) s = (s1, x)" by (cases "callHandle (Handle_i it) s")
  from Cons.prems(3) obtain e where e: "snd (Handle_i it s) = Return e"
    by fastforce
  with callHandle_result[OF h] have x: "x = Return e" by simp
  show ?case
  proof (cases "runMatches en rest s1")
    case (fields s2 evs2 fl2)
    from Cons.prems have "fl2 = Continue \<or> fl2 = Returned" using Cons.IH[OF fields] by simp
    with Cons.prems h fields x e show ?thesis
      by (auto simp: prepend_def Msgf_def failFastLogger_def
               split: ret.splits option.splits if_splits)
  qed
qed

lemma serveLv2_completions:
  "completions (serveLv2 en clk s)
     = (case onCompletedFunc s of None \<Rightarrow> [] | Some f \<Rightarrow> [Data_out (outbound s)])"
  by (simp add: serveLv2_def handleOutput_observers)

lemma findMatches_set:
  "set (findMatches mt en s)
     = {i \<in> set (interceptors en). anyTopicMatches mt (GetTopicExpr_i i) (topic s)}"
  by (simp add: findMatches_def)

lemma anyTopicMatches_iff: "anyTopicMatches mt es tp \<longleftrightarrow> (\<exists>e\<in>set es. mt e tp)"
  by (induction es) auto

lemma startCalls_simps [simp]:
  "startCalls r [] = []"
  "startCalls r (OnStart r' c # evs) = (if r' = r then c # startCalls r evs else startCalls r evs)"
  "startCalls r (Log l m # evs) = startCalls r evs"
  "startCalls r (Hook h # evs) = startCalls r evs"
  "startCalls r (Shutdown # evs) = startCalls r evs"
  "startCalls r (OnStop r' c # evs) = startCalls r evs"
  "startCalls r (evs @ evs') = startCalls r evs @ startCalls r evs'"
  by (simp_all add: startCalls_def)

lemma stopCalls_simps [simp]:
  "stopCalls r [] = []"
  "stopCalls r (OnStop r' c # evs) = (if r' = r then c # stopCalls r evs else stopCalls r evs)"
  "stopCalls r (Log l m # evs) = stopCalls r evs"
  "stopCalls r (Hook h # evs) = stopCalls r evs"
  "stopCalls r (Shutdown # evs) = stopCalls r evs"
  "stopCalls r (OnStart r' c # evs) = stopCalls r evs"
  "stopCalls r (evs @ evs') = stopCalls r evs @ stopCalls r evs'"
  by (simp_all add: stopCalls_def)

lemma startRoles_simps [simp]:
  "startRoles [] = []"
  "startRoles (OnStart r c # evs) = r # startRoles evs"
  "startRoles (Log l m # evs) = startRoles evs"
  "startRoles (Hook h # evs) = startRoles evs"
  "startRoles (Shutdown # evs) = startRoles evs"
  "startRoles (OnStop r c # evs) = startRoles evs"
  "startRoles (evs @ evs') = startRoles evs @ startRoles evs'"
  by (simp_all add: startRoles_def)

lemma stopRoles_simps [simp]:
  "stopRoles [] = []"
  "stopRoles (OnStop r c # evs) = r # stopRoles evs"
  "stopRoles (Log l m # evs) = stopRoles evs"
  "stopRoles (Hook h # evs) = stopRoles evs"
  "stopRoles (Shutdown # evs) = stopRoles evs"
  "stopRoles (OnStart r c # evs) = stopRoles evs"
  "stopRoles (evs @ evs') = stopRoles evs @ stopRoles evs'"
  by (simp_all add: stopRoles_def)

lemma calls_map_Hook [simp]:
  "startCalls r (map Hook hs) = []" "stopCalls r (map Hook hs) = []"
  "startRoles (map Hook hs) = []" "stopRoles (map Hook hs) = []"
  by (induction hs) simp_all

lemma calls_map_OnStart [simp]:
  "startCalls r (map (\<lambda>x. OnStart r' (f x)) xs) = (if r' = r then map f xs else [])"
  "stopCalls r (map (\<lambda>x. OnStart r' (f x)) xs) = []"
  "startRoles (map (\<lambda>x. OnStart r' (f x)) xs) = replicate (length xs) r'"
  "stopRoles (map (\<lambda>x. OnStart r' (f x)) xs) = []"
  by (induction xs; auto)+

lemma calls_map_OnStop [simp]:
  "stopCalls r (map (\<lambda>x. OnStop r' (f x)) xs) = (if r' = r then map f xs else [])"
  "startCalls r (map (\<lambda>x. OnStop r' (f x)) xs) = []"
  "stopRoles (map (\<lambda>x. OnStop r' (f x)) xs) = replicate (length xs) r'"
  "startRoles (map (\<lambda>x. OnStop r' (f x)) xs) = []"
  by (induction xs; auto)+

lemma calls_map_OnStart' [simp]:
  "startCalls r (map (OnStart r') xs) = (if r' = r then xs else [])"
  "stopCalls r (map (OnStart r') xs) = []"
  "startRoles (map (OnStart r') xs) = replicate (length xs) r'"
  "stopRoles (map (OnStart r') xs) = []"
  by (induction xs; auto)+

lemma calls_map_OnStop' [simp]:
  "stopCalls r (map (OnStop r') xs) = (if r' = r then xs else [])"
  "startCalls r (map (OnStop r') xs) = []"
  "stopRoles (map (OnStop r') xs) = replicate (length xs) r'"
  "startRoles (map (OnStop r') xs) = []"
  by (induction xs; auto)+

lemma map_filter_set: "set (List.map_filter f xs) = {y. \<exists>x\<in>set xs. f x = Some y}"
  by (induction xs) (auto simp: List.map_filter_simps split: option.splits)

lemma rangePipelines_set:
  "set order = dom (pipelines en) \<Longrightarrow> set (rangePipelines en order) = ran (pipelines en)"
  by (auto simp: rangePipelines_def map_filter_set ran_def dom_def)

lemma rangePipelines_length:
  "set order \<subseteq> dom (pipelines en) \<Longrightarrow> length (rangePipelines en order) = length order"
  unfolding rangePipelines_def
  by (induction order) (auto simp: List.map_filter_simps split: option.splits)

lemma recoverLogs_simps [simp]:
  "recoverLogs [] = []"
  "recoverLogs (Log LError (MsgGoroutine n err) # evs) = (n, err) # recoverLogs evs"
  "recoverLogs (Log LDebug m # evs) = recoverLogs evs"
  "recoverLogs (Log LPanic m # evs) = recoverLogs evs"
  "recoverLogs (Log l (MsgInterceptorError err) # evs) = recoverLogs evs"
  "recoverLogs (Log l (MsgDriverError err) # evs) = recoverLogs evs"
  "recoverLogs (SetAttr k v # evs) = recoverLogs evs"
  "recoverLogs (IHandle r x # evs) = recoverLogs evs"
  "recoverLogs (DHandle r x # evs) = recoverLogs evs"
  "recoverLogs (Send j # evs) = recoverLogs evs"
  "recoverLogs (Completed d # evs) = recoverLogs evs"
  "recoverLogs (evs @ evs') = recoverLogs evs @ recoverLogs evs'"
  by (simp_all add: recoverLogs_def split: level.splits)

lemma recoverLogs_debug:
  "\<forall>e\<in>set dbg. \<exists>m. e = Log LDebug m \<Longrightarrow> recoverLogs (OnIfLogV en dbg) = []"
  by (induction dbg) (auto simp: OnIfLogV_def split: if_splits)

lemma runMatches_recoverLogs:
  "runMatches en its s = (s', evs, fl) \<Longrightarrow> recoverLogs evs = []"
proof (induction its arbitrary: s s' evs fl)
  case Nil
  then show ?case by simp
next
  case (Cons it rest)
  obtain s1 x where h: "callHandle (Handle_i it) s = (s1, x)" by (cases "callHandle (Handle_i it) s")
  show ?case
  proof (cases "runMatches en rest s1")
    case (fields s2 evs2 fl2)
    from Cons.prems h fields Cons.IH[OF fields] show ?thesis
      by (auto simp: prepend_def Msgf_def failFastLogger_def
               split: ret.splits option.splits if_splits)
  qed
qed

lemma runDrivers_recoverLogs:
  "runDrivers mt en ds s = (s', evs, fl) \<Longrightarrow> recoverLogs evs = []"
proof (induction ds arbitrary: s s' evs fl)
  case Nil
  then show ?case by simp
next
  case (Cons d rest)
  obtain s1 r where h: "callHandle (Handle_d d) s = (s1, r)" by (cases "callHandle (Handle_d d) s")
  obtain s2 evs2 fl2 where f1: "runDrivers mt en rest s1 = (s2, evs2, fl2)"
    by (cases "runDrivers mt en rest s1")
  obtain s3 evs3 fl3 where f2: "runDrivers mt en rest s = (s3, evs3, fl3)"
    by (cases "runDrivers mt en rest s")
  have dbg: "recoverLogs (OnIfLogV en [Log LDebug m]) = []" for m
    by (simp add: OnIfLogV_def)
  from Cons.prems h f1 f2 Cons.IH[OF f1] Cons.IH[OF f2] dbg show ?case
    by (auto simp: prepend_def Msgf_def failFastLogger_def Let_def
             split: ret.splits option.splits if_splits)
qed

lemma body_recoverLogs:
  "interceptorBody mt srt en s = (s', evs, fl) \<Longrightarrow> recoverLogs evs = []"
  "driverBody mt en s = (s', evs, fl) \<Longrightarrow> recoverLogs evs = []"
  "outputBody s = (s', evs, fl) \<Longrightarrow> recoverLogs evs = []"
proof -
  have ml: "recoverLogs (matchLog mt en s) = []"
    unfolding matchLog_def by (rule recoverLogs_debug) auto
  show "interceptorBody mt srt en s = (s', evs, fl) \<Longrightarrow> recoverLogs evs = []"
    using runMatches_recoverLogs[of en "srt (findMatches mt en s)" s] ml
    by (cases "runMatches en (srt (findMatches mt en s)) s")
       (auto simp: interceptorBody_def split: flow.splits)
  show "driverBody mt en s = (s', evs, fl) \<Longrightarrow> recoverLogs evs = []"
    using runDrivers_recoverLogs[of mt en "drivers en" s]
    by (cases "runDrivers mt en (drivers en) s")
       (auto simp: driverBody_def split: flow.splits)
  show "outputBody s = (s', evs, fl) \<Longrightarrow> recoverLogs evs = []"
    by (auto simp: outputBody_def split: option.splits)
qed

lemma deliver_no_sends: "sends evs = [] \<Longrightarrow> deliver evs s d = d"
  by (induction evs s d rule: deliver.induct) (simp_all add: sends_def)

lemma stage_panic:
  assumes "body (AddAttribute s (name @ ''.Start'') (VTime t0)) = (s1, evs, Panicking p)"
    and "\<forall>e\<in>set dbg. \<exists>m. e = Log LDebug m"
    and "recoverLogs evs = []" and "sends evs = []"
  shows "raised (stage en n name dbg t0 t1 body s) = (if failFast en then Some p else None)"
    "recoverLogs (events (stage en n name dbg t0 t1 body s))
       = (case p of PError err \<Rightarrow> [(n, err)] | _ \<Rightarrow> [])"
    "sends (events (stage en n name dbg t0 t1 body s)) = []"
    "deliver (events (stage en n name dbg t0 t1 body s)) s' d = d"
proof -
  note f = stage_fields[where body=body and en=en and n=n and dbg=dbg and ?t1.0=t1, OF assms(1)]
  have dl: "\<forall>e\<in>set dbg. \<exists>l m. e = Log l m" using assms(2) by blast
  note o = OnIfLogV_logs[where en=en, OF dl]
  show "raised (stage en n name dbg t0 t1 body s) = (if failFast en then Some p else None)"
    using f by (simp add: recover_def checkRecover_def)
  show "recoverLogs (events (stage en n name dbg t0 t1 body s))
       = (case p of PError err \<Rightarrow> [(n, err)] | _ \<Rightarrow> [])"
    using f recoverLogs_debug[OF assms(2), of en] assms(3)
    by (simp add: recover_def checkRecover_def split: pval.splits)
  show sd: "sends (events (stage en n name dbg t0 t1 body s)) = []"
    using f o(4) assms(4) by simp
  show "deliver (events (stage en n name dbg t0 t1 body s)) s' d = d"
    by (rule deliver_no_sends[OF sd])
qed

lemma stage_raised_failFast:
  "raised (stage en n name dbg t0 t1 body s) \<noteq> None \<Longrightarrow> failFast en"
  by (auto simp: stage_def checkRecover_def split: prod.splits option.splits if_splits)

lemma stage_timing_general:
  assumes "body (AddAttribute s (name @ ''.Start'') (VTime t0)) = (s1, evs, fl)"
    and "timestamp s1 = timestamp s"
    and "\<forall>e\<in>set dbg. \<exists>l m. e = Log l m"
  shows "(\<exists>pre mid post. events (stage en n name dbg t0 t1 body s)
        = pre @ SetAttr (name @ ''.Start'') (VTime t0) # mid
            @ SetAttr (name @ ''.End'') (VDuration (t1 - timestamp s)) # post
        \<and> invokedI pre = [] \<and> invokedD pre = [] \<and> completions pre = [] \<and> sends pre = []
        \<and> invokedI post = [] \<and> invokedD post = [] \<and> completions post = [] \<and> sends post = [])
   \<and> map_of (attributes (session (stage en n name dbg t0 t1 body s))) (name @ ''.End'')
        = Some (VDuration (t1 - timestamp s))"
proof -
  note f = stage_fields[where body=body and en=en and n=n and dbg=dbg and ?t1.0=t1, OF assms(1)]
  note o = OnIfLogV_logs[where en=en, OF assms(3)]
  have ev: "events (stage en n name dbg t0 t1 body s)
      = OnIfLogV en dbg @ SetAttr (name @ ''.Start'') (VTime t0) # evs
          @ SetAttr (name @ ''.End'') (VDuration (t1 - timestamp s))
            # fst (checkRecover en (recover fl) n)"
    using f assms(2) by (simp add: Escaped_def)
  have "\<exists>pre mid post. events (stage en n name dbg t0 t1 body s)
        = pre @ SetAttr (name @ ''.Start'') (VTime t0) # mid
            @ SetAttr (name @ ''.End'') (VDuration (t1 - timestamp s)) # post
        \<and> invokedI pre = [] \<and> invokedD pre = [] \<and> completions pre = [] \<and> sends pre = []
        \<and> invokedI post = [] \<and> invokedD post = [] \<and> completions post = [] \<and> sends post = []"
    apply (rule exI[of _ "OnIfLogV en dbg"])
    apply (rule exI[of _ evs])
    apply (rule exI[of _ "fst (checkRecover en (recover fl) n)"])
    using ev o by simp
  moreover have "map_of (attributes (session (stage en n name dbg t0 t1 body s))) (name @ ''.End'')
        = Some (VDuration (t1 - timestamp s))"
    using f assms(2) by (simp add: Escaped_def)
  ultimately show ?thesis by blast
qed

lemma returnedErrors_simps [simp]:
  "returnedErrors [] = []"
  "returnedErrors (IHandle r (Return (Some err)) # evs)
     = (if err = ErrInterceptorDropped then [] else [err]) @ returnedErrors evs"
  "returnedErrors (IHandle r (Return None) # evs) = returnedErrors evs"
  "returnedErrors (IHandle r (Panic p) # evs) = returnedErrors evs"
  "returnedErrors (Log l m # evs) = returnedErrors evs"
  "returnedErrors (SetAttr k v # evs) = returnedErrors evs"
  "returnedErrors (Send j # evs) = returnedErrors evs"
  "returnedErrors (evs @ evs') = returnedErrors evs @ returnedErrors evs'"
  by (simp_all add: returnedErrors_def)

lemma loggedErrors_simps [simp]:
  "loggedErrors lvl [] = []"
  "loggedErrors lvl (Log l (MsgInterceptorError err) # evs)
     = (if l = lvl then [err] else []) @ loggedErrors lvl evs"
  "loggedErrors lvl (Log l (MsgStage n tp) # evs) = loggedErrors lvl evs"
  "loggedErrors lvl (Log l (MsgMatch r b) # evs) = loggedErrors lvl evs"
  "loggedErrors lvl (Log l (MsgDropped err) # evs) = loggedErrors lvl evs"
  "loggedErrors lvl (Log l (MsgGoroutine n err) # evs) = loggedErrors lvl evs"
  "loggedErrors lvl (IHandle r x # evs) = loggedErrors lvl evs"
  "loggedErrors lvl (SetAttr k v # evs) = loggedErrors lvl evs"
  "loggedErrors lvl (Send j # evs) = loggedErrors lvl evs"
  "loggedErrors lvl (evs @ evs') = loggedErrors lvl evs @ loggedErrors lvl evs'"
  by (simp_all add: loggedErrors_def)

lemma errors_of_map_logs:
  "loggedErrors lvl (map (\<lambda>it. Log LDebug (MsgMatch (f it) (g it))) xs) = []"
  "returnedErrors (map (\<lambda>it. Log LDebug (h it)) xs) = []"
  by (induction xs) simp_all

lemma errors_of_logs [simp]:
  "loggedErrors lvl (OnIfLogV en [Log l (MsgStage n tp)]) = []"
  "returnedErrors (OnIfLogV en [Log l m]) = []"
  "loggedErrors lvl (matchLog mt en s) = []"
  "returnedErrors (matchLog mt en s) = []"
  "loggedErrors lvl (fst (checkRecover en r n)) = []"
  "returnedErrors (fst (checkRecover en r n)) = []"
  by (auto simp: OnIfLogV_def matchLog_def errors_of_map_logs checkRecover_def
           split: option.splits pval.splits)

lemma runMatches_logged:
  "runMatches en its s = (s', evs, fl) \<Longrightarrow>
     loggedErrors (failFastLogger en) evs = returnedErrors evs"
proof (induction its arbitrary: s s' evs fl)
  case Nil
  then show ?case by simp
next
  case (Cons it rest)
  obtain s1 x where h: "callHandle (Handle_i it) s = (s1, x)" by (cases "callHandle (Handle_i it) s")
  show ?case
  proof (cases "runMatches en rest s1")
    case (fields s2 evs2 fl2)
    from Cons.prems h fields Cons.IH[OF fields] show ?thesis
      by (auto simp: prepend_def Msgf_def failFastLogger_def
               split: ret.splits option.splits if_splits)
  qed
qed

lemma handleInterceptor_logged:
  "loggedErrors (failFastLogger en) (events (handleInterceptor mt srt en t0 t1 s))
     = returnedErrors (events (handleInterceptor mt srt en t0 t1 s))"
proof -
  let ?s0 = "AddAttribute s (''Interceptor'' @ ''.Start'') (VTime t0)"
  obtain s1 evs fl where b: "interceptorBody mt srt en ?s0 = (s1, evs, fl)"
    by (cases "interceptorBody mt srt en ?s0")
  obtain s2 evs2 fl2 where m: "runMatches en (srt (findMatches mt en ?s0)) ?s0 = (s2, evs2, fl2)"
    by (cases "runMatches en (srt (findMatches mt en ?s0)) ?s0")
  from b m have evs: "evs = matchLog mt en ?s0 @ evs2 @ (if fl2 = Continue then [Send 1] else [])"
    by (auto simp: interceptorBody_def split: flow.splits)
  note f = stage_fields[where body="interceptorBody mt srt en" and en=en and n=0
      and dbg="[Log LDebug (MsgStage 0 (topic s))]" and ?t1.0=t1, OF b]
  show ?thesis
    using f evs runMatches_logged[OF m] by (simp add: handleInterceptor_def)
qed

lemma handleCallsI_simps [simp]:
  "handleCallsI [] = []"
  "handleCallsI (IHandle r x # evs) = (r, x) # handleCallsI evs"
  "handleCallsI (Log l m # evs) = handleCallsI evs"
  "handleCallsI (SetAttr k v # evs) = handleCallsI evs"
  "handleCallsI (DHandle r x # evs) = handleCallsI evs"
  "handleCallsI (Send n # evs) = handleCallsI evs"
  "handleCallsI (Completed d # evs) = handleCallsI evs"
  "handleCallsI (evs @ evs') = handleCallsI evs @ handleCallsI evs'"
  by (simp_all add: handleCallsI_def)

lemma handleCallsD_simps [simp]:
  "handleCallsD [] = []"
  "handleCallsD (DHandle r x # evs) = (r, x) # handleCallsD evs"
  "handleCallsD (Log l m # evs) = handleCallsD evs"
  "handleCallsD (SetAttr k v # evs) = handleCallsD evs"
  "handleCallsD (IHandle r x # evs) = handleCallsD evs"
  "handleCallsD (Send n # evs) = handleCallsD evs"
  "handleCallsD (Completed d # evs) = handleCallsD evs"
  "handleCallsD (evs @ evs') = handleCallsD evs @ handleCallsD evs'"
  by (simp_all add: handleCallsD_def)

lemma handleCalls_invoked:
  "map fst (handleCallsI evs) = invokedI evs" "map fst (handleCallsD evs) = invokedD evs"
  by (induction evs; simp add: handleCallsI_def handleCallsD_def invokedI_def invokedD_def
        split: event.splits)+

lemma handleCalls_empty:
  "invokedI evs = [] \<Longrightarrow> handleCallsI evs = []" "invokedD evs = [] \<Longrightarrow> handleCallsD evs = []"
  using handleCalls_invoked[of evs] by auto


lemma callsOf_length [simp]: "length (callsOf hs s) = length hs"
  by (induction hs s rule: callsOf.induct) simp_all

lemma sessionAfter_private:
  "timestamp (sessionAfter hs s) = timestamp s \<and> topic (sessionAfter hs s) = topic s
   \<and> onCompletedFunc (sessionAfter hs s) = onCompletedFunc s"
  by (induction hs s rule: sessionAfter.induct) (simp_all add: callHandle_def split: prod.splits)

lemma callHandle_keeps:
  "keepsAttribute k h \<Longrightarrow>
     map_of (attributes (fst (callHandle h s))) k = map_of (attributes s) k"
  by (cases "h s") (simp add: callHandle_def keepsAttribute_def, metis fst_conv)

lemma sessionAfter_keeps:
  "\<forall>h\<in>set hs. keepsAttribute k (snd h) \<Longrightarrow>
     map_of (attributes (sessionAfter hs s)) k = map_of (attributes s) k"
  by (induction hs s rule: sessionAfter.induct) (simp_all add: callHandle_keeps)

lemma handles_simps [simp]:
  "handlesI [] = []" "handlesI (it # its) = (ref_i it, Handle_i it) # handlesI its"
  "handlesD [] = []" "handlesD (d # ds) = (ref_d d, Handle_d d) # handlesD ds"
  by (simp_all add: handlesI_def handlesD_def)

lemma callsOf_refs:
  "map fst (callsOf (handlesI run) s) = map ref_i run"
  "map fst (callsOf (handlesD drun) s) = map ref_d drun"
  by (induction run arbitrary: s; simp) (induction drun arbitrary: s; simp)

lemma panicsI_cutsI: "panicsI en r \<Longrightarrow> cutsI en r"
  by (auto simp: panicsI_def cutsI_def split: ret.splits option.splits if_splits)


lemma cuts_simps [simp]:
  "cutsI en (Panic p)" "\<not> cutsI en (Return None)"
  "cutsI en (Return (Some err)) \<longleftrightarrow> err = ErrInterceptorDropped \<or> failFast en"
  "panicsI en (Panic p)" "\<not> panicsI en (Return None)"
  "panicsI en (Return (Some err)) \<longleftrightarrow> err \<noteq> ErrInterceptorDropped \<and> failFast en"
  "panicsD en (Panic p)" "\<not> panicsD en (Return None)"
  "panicsD en (Return (Some err)) \<longleftrightarrow> failFast en"
  by (simp_all add: cutsI_def panicsI_def panicsD_def)

lemma upToCut_Nil [simp]: "upToCut P cs = [] \<longleftrightarrow> cs = []"
  by (cases cs) simp_all

lemma upToCut_take: "upToCut P cs = take (length (upToCut P cs)) cs"
  by (induction cs) simp_all

lemma upToCut_all: "\<forall>c\<in>set cs. \<not> P (snd c) \<Longrightarrow> upToCut P cs = cs"
  by (induction cs) simp_all

lemma upToCut_butlast: "\<forall>c\<in>set (butlast (upToCut P cs)). \<not> P (snd c)"
  by (induction cs) auto

lemma upToCut_short:
  "length (upToCut P cs) < length cs \<Longrightarrow> upToCut P cs \<noteq> [] \<and> P (snd (last (upToCut P cs)))"
  by (induction cs) (auto split: if_splits)

lemma upToCut_ex: "(\<exists>c\<in>set (upToCut P cs). P (snd c)) \<longleftrightarrow> (\<exists>c\<in>set cs. P (snd c))"
  by (induction cs) auto

lemma upToCut_full: "length (upToCut P cs) = length cs \<Longrightarrow> upToCut P cs = cs"
  using upToCut_take[of P cs] by simp

lemma callsOf_take: "callsOf (take k hs) s = take k (callsOf hs s)"
proof (induction hs s arbitrary: k rule: callsOf.induct)
  case (1 s)
  then show ?case by simp
next
  case (2 n h hs s)
  then show ?case by (cases k) simp_all
qed

lemma handles_take: "handlesI (take k its) = take k (handlesI its)"
  "handlesD (take k ds) = take k (handlesD ds)"
  by (simp_all add: handlesI_def handlesD_def take_map)

lemma runMatches_calls:
  "runMatches en its s = (s', evs, fl) \<Longrightarrow>
     handleCallsI evs = upToCut (cutsI en) (callsOf (handlesI its) s)"
proof (induction its arbitrary: s s' evs fl)
  case Nil
  then show ?case by simp
next
  case (Cons it rest)
  obtain s1 x where h: "callHandle (Handle_i it) s = (s1, x)" by (cases "callHandle (Handle_i it) s")
  show ?case
  proof (cases "runMatches en rest s1")
    case (fields s2 evs2 fl2)
    note ih = Cons.IH[OF fields]
    from Cons.prems h fields ih show ?thesis
      by (auto simp: prepend_def Msgf_def failFastLogger_def
               split: ret.splits option.splits if_splits)
  qed
qed

lemma runMatches_flow:
  "runMatches en its s = (s', evs, fl) \<Longrightarrow>
     (fl = Continue \<longleftrightarrow> (\<forall>c\<in>set (handleCallsI evs). \<not> cutsI en (snd c)))"
proof (induction its arbitrary: s s' evs fl)
  case Nil
  then show ?case by simp
next
  case (Cons it rest)
  obtain s1 x where h: "callHandle (Handle_i it) s = (s1, x)" by (cases "callHandle (Handle_i it) s")
  show ?case
  proof (cases "runMatches en rest s1")
    case (fields s2 evs2 fl2)
    note ih = Cons.IH[OF fields]
    from Cons.prems h fields ih show ?thesis
      by (auto simp: prepend_def Msgf_def failFastLogger_def
               split: ret.splits option.splits if_splits)
  qed
qed

lemma runMatches_panics:
  "runMatches en its s = (s', evs, fl) \<Longrightarrow>
     (recover fl \<noteq> None \<longleftrightarrow> (\<exists>c\<in>set (handleCallsI evs). panicsI en (snd c)))"
proof (induction its arbitrary: s s' evs fl)
  case Nil
  then show ?case by (simp add: recover_def)
next
  case (Cons it rest)
  obtain s1 x where h: "callHandle (Handle_i it) s = (s1, x)" by (cases "callHandle (Handle_i it) s")
  show ?case
  proof (cases "runMatches en rest s1")
    case (fields s2 evs2 fl2)
    note ih = Cons.IH[OF fields]
    from Cons.prems h fields ih show ?thesis
      apply (auto simp: prepend_def Msgf_def failFastLogger_def recover_def
               split: ret.splits option.splits if_splits)
      apply (drule (1) bspec, simp)+
      done
  qed
qed

lemma runMatches_session:
  "runMatches en its s = (s', evs, fl) \<Longrightarrow>
     attributes s' = attributes (sessionAfter (handlesI (take (length (handleCallsI evs)) its)) s)"
proof (induction its arbitrary: s s' evs fl)
  case Nil
  then show ?case by simp
next
  case (Cons it rest)
  obtain s1 x where h: "callHandle (Handle_i it) s = (s1, x)" by (cases "callHandle (Handle_i it) s")
  show ?case
  proof (cases "runMatches en rest s1")
    case (fields s2 evs2 fl2)
    note ih = Cons.IH[OF fields]
    from Cons.prems h fields ih show ?thesis
      by (auto simp: prepend_def Msgf_def failFastLogger_def
               split: ret.splits option.splits if_splits)
  qed
qed


lemma runDrivers_calls:
  "runDrivers mt en ds s = (s', evs, fl) \<Longrightarrow>
     handleCallsD evs
       = upToCut (panicsD en)
           (callsOf (handlesD (filter (\<lambda>d. anyTopicMatches mt (GetTopicExpr_d d) (topic s)) ds)) s)"
proof (induction ds arbitrary: s s' evs fl)
  case Nil
  then show ?case by simp
next
  case (Cons d rest)
  obtain s1 r where h: "callHandle (Handle_d d) s = (s1, r)" by (cases "callHandle (Handle_d d) s")
  note p = callHandle_private[OF h]
  obtain s2 evs2 fl2 where f1: "runDrivers mt en rest s1 = (s2, evs2, fl2)"
    by (cases "runDrivers mt en rest s1")
  obtain s3 evs3 fl3 where f2: "runDrivers mt en rest s = (s3, evs3, fl3)"
    by (cases "runDrivers mt en rest s")
  have dbg: "handleCallsD (OnIfLogV en [Log LDebug m]) = []" for m
    by (simp add: OnIfLogV_def)
  from Cons.prems h f1 f2 Cons.IH[OF f1] Cons.IH[OF f2] p dbg show ?case
    by (auto simp: prepend_def Msgf_def failFastLogger_def Let_def
             split: ret.splits option.splits if_splits)
qed

lemma runDrivers_flow:
  "runDrivers mt en ds s = (s', evs, fl) \<Longrightarrow>
     (fl = Continue \<longleftrightarrow> (\<forall>c\<in>set (handleCallsD evs). \<not> panicsD en (snd c)))"
proof (induction ds arbitrary: s s' evs fl)
  case Nil
  then show ?case by simp
next
  case (Cons d rest)
  obtain s1 r where h: "callHandle (Handle_d d) s = (s1, r)" by (cases "callHandle (Handle_d d) s")
  obtain s2 evs2 fl2 where f1: "runDrivers mt en rest s1 = (s2, evs2, fl2)"
    by (cases "runDrivers mt en rest s1")
  obtain s3 evs3 fl3 where f2: "runDrivers mt en rest s = (s3, evs3, fl3)"
    by (cases "runDrivers mt en rest s")
  have dbg: "handleCallsD (OnIfLogV en [Log LDebug m]) = []" for m
    by (simp add: OnIfLogV_def)
  from Cons.prems h f1 f2 Cons.IH[OF f1] Cons.IH[OF f2] dbg show ?case
    by (auto simp: prepend_def Msgf_def failFastLogger_def Let_def
             split: ret.splits option.splits if_splits)
qed

lemma runDrivers_session:
  "runDrivers mt en ds s = (s', evs, fl) \<Longrightarrow>
     s' = sessionAfter (handlesD (take (length (handleCallsD evs))
            (filter (\<lambda>d. anyTopicMatches mt (GetTopicExpr_d d) (topic s)) ds))) s"
proof (induction ds arbitrary: s s' evs fl)
  case Nil
  then show ?case by simp
next
  case (Cons d rest)
  obtain s1 r where h: "callHandle (Handle_d d) s = (s1, r)" by (cases "callHandle (Handle_d d) s")
  note p = callHandle_private[OF h]
  obtain s2 evs2 fl2 where f1: "runDrivers mt en rest s1 = (s2, evs2, fl2)"
    by (cases "runDrivers mt en rest s1")
  obtain s3 evs3 fl3 where f2: "runDrivers mt en rest s = (s3, evs3, fl3)"
    by (cases "runDrivers mt en rest s")
  have dbg: "handleCallsD (OnIfLogV en [Log LDebug m]) = []" for m
    by (simp add: OnIfLogV_def)
  from Cons.prems h f1 f2 Cons.IH[OF f1] Cons.IH[OF f2] p dbg show ?case
    by (auto simp: prepend_def Msgf_def failFastLogger_def Let_def
             split: ret.splits option.splits if_splits)
qed

lemma stage_calls:
  assumes "body (AddAttribute s (name @ ''.Start'') (VTime t0)) = (s1, evs, fl)"
    and "\<forall>e\<in>set dbg. \<exists>l m. e = Log l m"
  shows "handleCallsI (events (stage en n name dbg t0 t1 body s)) = handleCallsI evs"
    "handleCallsD (events (stage en n name dbg t0 t1 body s)) = handleCallsD evs"
  using stage_fields[where body=body and en=en and n=n and dbg=dbg and ?t1.0=t1, OF assms(1)]
    handleCalls_empty(1)[OF OnIfLogV_logs(1)[where en=en, OF assms(2)]]
    handleCalls_empty(2)[OF OnIfLogV_logs(2)[where en=en, OF assms(2)]]
    handleCalls_empty(1)[OF checkRecover_events(2)[of en "recover fl" n]]
    handleCalls_empty(2)[OF checkRecover_events(3)[of en "recover fl" n]]
  by simp_all

lemma moveLeft_mset: "mset (moveLeft lessf x rs) = add_mset x (mset rs)"
  by (induction rs) simp_all

lemma moveLeft_set: "set (moveLeft lessf x rs) = insert x (set rs)"
  by (induction rs) auto

lemma moveLeft_sorted:
  "sorted_wrt (\<lambda>a b. \<not> key a < key b) rs \<Longrightarrow>
     sorted_wrt (\<lambda>a b. \<not> (key a :: int) < key b) (moveLeft (\<lambda>a b. key a < key b) x rs)"
  by (induction rs) (auto simp: moveLeft_set)

lemma foldl_moveLeft:
  "mset (foldl (\<lambda>rs x. moveLeft lessf x rs) acc xs) = mset acc + mset xs"
  by (induction xs arbitrary: acc) (simp_all add: moveLeft_mset)

lemma foldl_moveLeft_sorted:
  "sorted_wrt (\<lambda>a b. \<not> key a < key b) acc \<Longrightarrow>
     sorted_wrt (\<lambda>a b. \<not> (key a :: int) < key b)
       (foldl (\<lambda>rs x. moveLeft (\<lambda>a b. key a < key b) x rs) acc xs)"
  by (induction xs arbitrary: acc) (simp_all add: moveLeft_sorted)

lemma insertionSort_contract: "sort_Sort_contract insertionSort"
  unfolding sort_Sort_contract_def insertionSort_def
  using foldl_moveLeft_sorted[of _ "[]"]
  by (auto simp: foldl_moveLeft sorted_wrt_rev)

lemma Less_key: "Less = (\<lambda>a b. GetPriority a < GetPriority b)"
  by (intro ext) (simp add: Less_def)

lemma sort_Sort_Less: "sort_Sort_contract gsort \<Longrightarrow> sort_contract (gsort Less)"
  unfolding sort_Sort_contract_def sort_contract_def Less_key by simp

lemma handles_length [simp]:
  "length (handlesI its) = length its" "length (handlesD ds) = length ds"
  by (simp_all add: handlesI_def handlesD_def)

lemma handleInterceptor_calls:
  "handleCallsI (events (handleInterceptor mt srt en t0 t1 s))
     = upToCut (cutsI en)
         (callsOf (handlesI (srt (findMatches mt en s)))
            (AddAttribute s ''Interceptor.Start'' (VTime t0)))"
proof -
  let ?s0 = "AddAttribute s (''Interceptor'' @ ''.Start'') (VTime t0)"
  obtain s1 evs fl where b: "interceptorBody mt srt en ?s0 = (s1, evs, fl)"
    by (cases "interceptorBody mt srt en ?s0")
  obtain s2 evs2 fl2 where m: "runMatches en (srt (findMatches mt en ?s0)) ?s0 = (s2, evs2, fl2)"
    by (cases "runMatches en (srt (findMatches mt en ?s0)) ?s0")
  have ml: "handleCallsI (matchLog mt en ?s0) = []"
    by (rule handleCalls_empty) (simp add: matchLog_def)
  from b m have "evs = matchLog mt en ?s0 @ evs2 @ (if fl2 = Continue then [Send 1] else [])"
    by (auto simp: interceptorBody_def split: flow.splits)
  then have "handleCallsI evs = handleCallsI evs2" using ml by simp
  moreover have dbg: "\<forall>e\<in>set [Log LDebug (MsgStage 0 (topic s))]. \<exists>l m. e = Log l m" by simp
  ultimately show ?thesis
    using stage_calls(1)[where body="interceptorBody mt srt en" and en=en and n=0
        and ?t1.0=t1, OF b dbg] runMatches_calls[OF m]
    by (simp add: handleInterceptor_def)
qed

lemma handleDriver_calls:
  "handleCallsD (events (handleDriver mt en t0 t1 s))
     = upToCut (panicsD en)
         (callsOf (handlesD (filter (\<lambda>d. anyTopicMatches mt (GetTopicExpr_d d) (topic s))
                      (drivers en)))
            (AddAttribute s ''Driver.Start'' (VTime t0)))"
  "sends (events (handleDriver mt en t0 t1 s))
     = (if \<exists>c\<in>set (handleCallsD (events (handleDriver mt en t0 t1 s))). panicsD en (snd c)
        then [] else [2])"
  "raised (handleDriver mt en t0 t1 s) \<noteq> None
     \<Longrightarrow> \<exists>c\<in>set (handleCallsD (events (handleDriver mt en t0 t1 s))). panicsD en (snd c)"
  "\<not> (\<exists>c\<in>set (handleCallsD (events (handleDriver mt en t0 t1 s))). panicsD en (snd c))
     \<Longrightarrow> \<exists>pre post. events (handleDriver mt en t0 t1 s) = pre @ Send 2 # post
           \<and> invokedD post = []"
proof -
  let ?s0 = "AddAttribute s (''Driver'' @ ''.Start'') (VTime t0)"
  let ?R = "handleDriver mt en t0 t1 s"
  obtain s1 evs fl where b: "driverBody mt en ?s0 = (s1, evs, fl)"
    by (cases "driverBody mt en ?s0")
  obtain s2 evs2 fl2 where m: "runDrivers mt en (drivers en) ?s0 = (s2, evs2, fl2)"
    by (cases "runDrivers mt en (drivers en) ?s0")
  from b m have eq: "fl = fl2" "evs = evs2 @ (if fl2 = Continue then [Send 2] else [])"
    by (auto simp: driverBody_def split: flow.splits)
  have dbg: "\<forall>e\<in>set [Log LDebug (MsgStage 1 (topic s))]. \<exists>l m. e = Log l m" by simp
  note sc = stage_calls(2)[where body="driverBody mt en" and en=en and n=1 and ?t1.0=t1, OF b dbg]
  note f = stage_fields[where body="driverBody mt en" and en=en and n=1
      and dbg="[Log LDebug (MsgStage 1 (topic s))]" and ?t1.0=t1, OF b]
  have b0: "driverBody mt en (AddAttribute s ''Driver.Start'' (VTime t0)) = (s1, evs, fl)"
    using b by simp
  note h = handleDriver_body[OF b0]
  have c: "handleCallsD (events ?R) = handleCallsD evs2"
    using sc eq by (simp add: handleDriver_def)
  show "handleCallsD (events ?R)
     = upToCut (panicsD en)
         (callsOf (handlesD (filter (\<lambda>d. anyTopicMatches mt (GetTopicExpr_d d) (topic s))
                      (drivers en)))
            (AddAttribute s ''Driver.Start'' (VTime t0)))"
    using c runDrivers_calls[OF m] by simp
  have fl: "fl = Continue \<longleftrightarrow> \<not> (\<exists>c\<in>set (handleCallsD (events ?R)). panicsD en (snd c))"
    using runDrivers_flow[OF m] c eq by simp
  show "sends (events ?R)
     = (if \<exists>c\<in>set (handleCallsD (events ?R)). panicsD en (snd c) then [] else [2])"
    using h(4) fl by (cases fl) auto
  show "raised ?R \<noteq> None \<Longrightarrow> \<exists>c\<in>set (handleCallsD (events ?R)). panicsD en (snd c)"
    using h(5) fl by (cases fl) (auto simp: recover_def checkRecover_def)
  assume "\<not> (\<exists>c\<in>set (handleCallsD (events ?R)). panicsD en (snd c))"
  with fl have flc: "fl = Continue" by simp
  have ev: "events ?R
      = (OnIfLogV en [Log LDebug (MsgStage 1 (topic s))]
           @ [SetAttr (''Driver'' @ ''.Start'') (VTime t0)] @ evs2)
        @ Send 2 # [SetAttr (''Driver'' @ ''.End'') (VDuration (Escaped s1 t1))]"
    using f flc eq by (simp add: handleDriver_def recover_def checkRecover_def)
  show "\<exists>pre post. events ?R = pre @ Send 2 # post \<and> invokedD post = []"
    by (rule exI, rule exI, rule conjI, rule ev) simp
qed

lemma handleInterceptor_flow:
  "sends (events (handleInterceptor mt srt en t0 t1 s))
     = (if \<exists>c\<in>set (handleCallsI (events (handleInterceptor mt srt en t0 t1 s))).
             panicsI en (snd c) then []
        else if \<exists>c\<in>set (handleCallsI (events (handleInterceptor mt srt en t0 t1 s))).
             cutsI en (snd c) then [2]
        else [1])"
  "raised (handleInterceptor mt srt en t0 t1 s) \<noteq> None
     \<Longrightarrow> \<exists>c\<in>set (handleCallsI (events (handleInterceptor mt srt en t0 t1 s))).
           panicsI en (snd c)"
  "handleCallsD (events (handleInterceptor mt srt en t0 t1 s)) = []"
  "onCompletedFunc (session (handleInterceptor mt srt en t0 t1 s)) = onCompletedFunc s"
proof -
  let ?s0 = "AddAttribute s (''Interceptor'' @ ''.Start'') (VTime t0)"
  let ?R = "handleInterceptor mt srt en t0 t1 s"
  obtain s1 evs fl where b: "interceptorBody mt srt en ?s0 = (s1, evs, fl)"
    by (cases "interceptorBody mt srt en ?s0")
  obtain s2 evs2 fl2 where m: "runMatches en (srt (findMatches mt en ?s0)) ?s0 = (s2, evs2, fl2)"
    by (cases "runMatches en (srt (findMatches mt en ?s0)) ?s0")
  have ml: "handleCallsI (matchLog mt en ?s0) = []"
    by (rule handleCalls_empty) (simp add: matchLog_def)
  from b m have eq: "fl = fl2"
    "evs = matchLog mt en ?s0 @ evs2 @ (if fl2 = Continue then [Send 1] else [])"
    by (auto simp: interceptorBody_def split: flow.splits)
  have dbg: "\<forall>e\<in>set [Log LDebug (MsgStage 0 (topic s))]. \<exists>l m. e = Log l m" by simp
  note sc = stage_calls(1)[where body="interceptorBody mt srt en" and en=en and n=0
      and ?t1.0=t1, OF b dbg]
  note f = stage_fields[where body="interceptorBody mt srt en" and en=en and n=0
      and dbg="[Log LDebug (MsgStage 0 (topic s))]" and ?t1.0=t1, OF b]
  have b0: "interceptorBody mt srt en (AddAttribute s ''Interceptor.Start'' (VTime t0))
      = (s1, evs, fl)" using b by simp
  note h = handleInterceptor_body[OF b0]
  have c: "handleCallsI (events ?R) = handleCallsI evs2"
    using sc eq ml by (simp add: handleInterceptor_def)
  have flc: "fl = Continue \<longleftrightarrow> \<not> (\<exists>c\<in>set (handleCallsI (events ?R)). cutsI en (snd c))"
    using runMatches_flow[OF m] c eq by simp
  have flp: "recover fl \<noteq> None \<longleftrightarrow> (\<exists>c\<in>set (handleCallsI (events ?R)). panicsI en (snd c))"
    using runMatches_panics[OF m] c eq by simp
  show "sends (events ?R)
     = (if \<exists>c\<in>set (handleCallsI (events ?R)). panicsI en (snd c) then []
        else if \<exists>c\<in>set (handleCallsI (events ?R)). cutsI en (snd c) then [2]
        else [1])"
    using h(4) flc flp by (cases fl) (auto simp: recover_def)
  show "raised ?R \<noteq> None \<Longrightarrow> \<exists>c\<in>set (handleCallsI (events ?R)). panicsI en (snd c)"
    using h(5) flp by (cases fl) (auto simp: recover_def checkRecover_def)
  show "handleCallsD (events ?R) = []"
    by (rule handleCalls_empty) (rule h(2))
  show "onCompletedFunc (session ?R) = onCompletedFunc s"
    using f interceptorBody_facts(3)[OF b] by (simp add: handleInterceptor_def)
qed

lemma handleDriver_private:
  "handleCallsI (events (handleDriver mt en t0 t1 s)) = []"
  "onCompletedFunc (session (handleDriver mt en t0 t1 s)) = onCompletedFunc s"
proof -
  let ?s0 = "AddAttribute s (''Driver'' @ ''.Start'') (VTime t0)"
  obtain s1 evs fl where b: "driverBody mt en ?s0 = (s1, evs, fl)"
    by (cases "driverBody mt en ?s0")
  have b0: "driverBody mt en (AddAttribute s ''Driver.Start'' (VTime t0)) = (s1, evs, fl)"
    using b by simp
  note f = stage_fields[where body="driverBody mt en" and en=en and n=1
      and dbg="[Log LDebug (MsgStage 1 (topic s))]" and ?t1.0=t1, OF b]
  show "handleCallsI (events (handleDriver mt en t0 t1 s)) = []"
    by (rule handleCalls_empty) (rule handleDriver_body(2)[OF b0])
  show "onCompletedFunc (session (handleDriver mt en t0 t1 s)) = onCompletedFunc s"
    using f driverBody_facts(3)[OF b] by (simp add: handleDriver_def)
qed

lemma serveLv2_calls:
  "handleCallsI (serveLv2 en clk s) = []" "handleCallsD (serveLv2 en clk s) = []"
  by (simp_all add: serveLv2_def handleCalls_empty handleOutput_observers)

lemma serveLv1_facts:
  "handleCallsI (serveLv1 mt en clk s) = []"
  "handleCallsD (serveLv1 mt en clk s)
     = handleCallsD (events (handleDriver mt en (fst (clk 1)) (snd (clk 1)) s))"
  "completions (serveLv1 mt en clk s)
     = (if \<exists>c\<in>set (handleCallsD (serveLv1 mt en clk s)). panicsD en (snd c) then []
        else case onCompletedFunc s of
               None \<Rightarrow> []
             | Some f \<Rightarrow> [Data_out (outbound
                  (session (handleDriver mt en (fst (clk 1)) (snd (clk 1)) s)))])"
proof -
  let ?R = "handleDriver mt en (fst (clk 1)) (snd (clk 1)) s"
  obtain s1 evs fl where b: "driverBody mt en (AddAttribute s ''Driver.Start'' (VTime (fst (clk 1))))
      = (s1, evs, fl)"
    by (cases "driverBody mt en (AddAttribute s ''Driver.Start'' (VTime (fst (clk 1))))")
  note h = handleDriver_body[OF b]
  note p = handleDriver_private[of mt en "fst (clk 1)" "snd (clk 1)" s]
  note c = handleDriver_calls(2,3)[of mt en "fst (clk 1)" "snd (clk 1)" s]
  show i: "handleCallsI (serveLv1 mt en clk s) = []"
    using p(1) by (simp add: serveLv1_def Let_def serveLv2_calls)
  show d: "handleCallsD (serveLv1 mt en clk s) = handleCallsD (events ?R)"
    by (simp add: serveLv1_def Let_def serveLv2_calls)
  show "completions (serveLv1 mt en clk s)
     = (if \<exists>c\<in>set (handleCallsD (serveLv1 mt en clk s)). panicsD en (snd c) then []
        else case onCompletedFunc s of
               None \<Rightarrow> []
             | Some f \<Rightarrow> [Data_out (outbound (session ?R))])"
  proof (cases "\<exists>c\<in>set (handleCallsD (events ?R)). panicsD en (snd c)")
    case True
    then have "sends (events ?R) = []" using c(1) by simp
    then show ?thesis using True d h(3) by (simp add: serveLv1_def Let_def)
  next
    case False
    have "raised ?R = None"
    proof (rule ccontr)
      assume "raised ?R \<noteq> None"
      from c(2)[OF this] False show False by simp
    qed
    moreover have "sends (events ?R) = [2]" using False c(1) by simp
    ultimately show ?thesis
      using False d h(3) p(2)
      by (simp add: serveLv1_def Let_def serveLv2_completions split: option.splits)
  qed
qed

lemma lifecycle_simps [simp]:
  "lifecycle [] = []"
  "lifecycle (OnStart r c # evs) = OnStart r c # lifecycle evs"
  "lifecycle (OnStop r c # evs) = OnStop r c # lifecycle evs"
  "lifecycle (Log l m # evs) = lifecycle evs"
  "lifecycle (Hook h # evs) = lifecycle evs"
  "lifecycle (Shutdown # evs) = lifecycle evs"
  "lifecycle (evs @ evs') = lifecycle evs @ lifecycle evs'"
  by (simp_all add: lifecycle_def)

lemma lifecycle_map [simp]:
  "lifecycle (map Hook hs) = []"
  "lifecycle (map (OnStart r) xs) = map (OnStart r) xs"
  "lifecycle (map (OnStop r) xs) = map (OnStop r) xs"
  "lifecycle (map (\<lambda>x. OnStart r (f x)) ys) = map (\<lambda>x. OnStart r (f x)) ys"
  "lifecycle (map (\<lambda>x. OnStop r (f x)) ys) = map (\<lambda>x. OnStop r (f x)) ys"
  by (simp_all add: lifecycle_def filter_map o_def)

lemma lifecycle_sequence [simp]:
  "lifecycle (startSequence en order) = startSequence en order"
  "lifecycle (stopSequence en order) = stopSequence en order"
  by (simp_all add: startSequence_def stopSequence_def)

lemma lifecycle_take: "lifecycle xs = xs \<Longrightarrow> lifecycle (take k xs) = take k xs"
  unfolding lifecycle_def by (metis filter_id_conv in_set_takeD)

lemma lifecycle_take_Nil: "lifecycle xs = [] \<Longrightarrow> lifecycle (take k xs) = []"
  unfolding lifecycle_def by (auto simp: filter_empty_conv dest: in_set_takeD)

lemma lifecycle_calls:
  "startCalls r (lifecycle evs) = startCalls r evs"
  "stopCalls r (lifecycle evs) = stopCalls r evs"
  "startRoles (lifecycle evs) = startRoles evs"
  "stopRoles (lifecycle evs) = stopRoles evs"
  by (induction evs;
      simp add: lifecycle_def startCalls_def stopCalls_def startRoles_def stopRoles_def
        split: event.splits)+

lemma runCalls_prefix: "\<exists>k. fst (runCalls pn cs) = take k cs"
proof (induction cs)
  case Nil
  show ?case by simp
next
  case (Cons c cs)
  then obtain k where k: "fst (runCalls pn cs) = take k cs" by blast
  show ?case
  proof (cases "pn c")
    case None
    then have "fst (runCalls pn (c # cs)) = take (Suc k) (c # cs)"
      using k by (cases "runCalls pn cs") simp
    then show ?thesis by blast
  next
    case (Some p)
    then have "fst (runCalls pn (c # cs)) = take (Suc 0) (c # cs)" by simp
    then show ?thesis by blast
  qed
qed

lemma runCalls_butlast: "c \<in> set (butlast (fst (runCalls pn cs))) \<Longrightarrow> pn c = None"
  by (induction cs arbitrary: c) (auto split: option.splits prod.splits if_splits)

lemma runCalls_all: "(\<forall>c\<in>set cs. pn c = None) \<Longrightarrow> runCalls pn cs = (cs, None)"
  by (induction cs) simp_all

lemma runCalls_None: "snd (runCalls pn cs) = None \<Longrightarrow> runCalls pn cs = (cs, None)"
  by (induction cs) (auto split: option.splits prod.splits)

lemma runCalls_Hook:
  "lifecycle (fst (runCalls pn (map Hook hs))) = []"
proof -
  obtain k where "fst (runCalls pn (map Hook hs)) = take k (map Hook hs)"
    using runCalls_prefix by blast
  then show ?thesis by (simp add: lifecycle_take_Nil)
qed

lemma runCalls_lifecycle:
  "lifecycle cs = cs \<Longrightarrow> lifecycle (fst (runCalls pn cs)) = fst (runCalls pn cs)"
proof -
  assume a: "lifecycle cs = cs"
  obtain k where "fst (runCalls pn cs) = take k cs" using runCalls_prefix by blast
  then show ?thesis using a by (simp add: lifecycle_take)
qed

lemma deferred_lifecycle:
  "deferredStart pn en p = (dv, r) \<Longrightarrow> lifecycle dv = [] \<and> (p \<noteq> None \<longrightarrow> r \<noteq> None)"
  "deferredStop pn en p = (dv, r) \<Longrightarrow> lifecycle dv = [] \<and> (p \<noteq> None \<longrightarrow> r \<noteq> None)"
  using runCalls_Hook[of pn "startAfterHooks en"] runCalls_Hook[of pn "stopAfterHooks en"]
  by (auto simp: deferredStart_def deferredStop_def split: prod.splits option.splits)

lemma Start_lifecycle:
  "lifecycle (fst (Start en order pn))
     = (if snd (runCalls pn (map Hook (startBeforeHooks en))) = None
        then fst (runCalls pn (startSequence en order)) else [])"
  "snd (Start en order pn) = None
     \<Longrightarrow> snd (runCalls pn (map Hook (startBeforeHooks en))) = None
         \<and> snd (runCalls pn (startSequence en order)) = None"
  using runCalls_Hook[of pn "startBeforeHooks en"]
    runCalls_lifecycle[of "startSequence en order" pn]
  by (auto simp: Start_def split: prod.splits option.splits dest: deferred_lifecycle(1))

lemma Stop_lifecycle:
  "lifecycle (fst (Stop en order pn))
     = (if snd (runCalls pn (map Hook (stopBeforeHooks en))) = None
        then fst (runCalls pn (stopSequence en order)) else [])"
  "snd (Stop en order pn) = None
     \<Longrightarrow> snd (runCalls pn (map Hook (stopBeforeHooks en))) = None
         \<and> snd (runCalls pn (stopSequence en order)) = None"
  using runCalls_Hook[of pn "stopBeforeHooks en"]
    runCalls_lifecycle[of "stopSequence en order" pn]
  by (auto simp: Stop_def split: prod.splits option.splits dest: deferred_lifecycle(2))

lemma startSequence_roles:
  "sorted (map rank (startRoles (startSequence en order)))"
  "stopRoles (startSequence en order) = []"
  "startCalls Plugins (startSequence en order) = plugins en"
  "startCalls Pipelines (startSequence en order) = rangePipelines en order"
  "startCalls Drivers (startSequence en order) = map ref_d (drivers en)"
  "startCalls Triggers (startSequence en order) = triggers en"
  by (auto simp: startSequence_def sorted_append map_replicate set_replicate_conv_if)

lemma stopSequence_roles:
  "sorted (rev (map rank (stopRoles (stopSequence en order))))"
  "startRoles (stopSequence en order) = []"
  "stopCalls Plugins (stopSequence en order) = plugins en"
  "stopCalls Pipelines (stopSequence en order) = rangePipelines en order"
  "stopCalls Drivers (stopSequence en order) = map ref_d (drivers en)"
  "stopCalls Triggers (stopSequence en order) = triggers en"
  by (auto simp: stopSequence_def sorted_append map_replicate set_replicate_conv_if)

lemma roles_take:
  "sorted (map rank (startRoles xs)) \<Longrightarrow> sorted (map rank (startRoles (take k xs)))"
  "sorted (rev (map rank (stopRoles xs))) \<Longrightarrow> sorted (rev (map rank (stopRoles (take k xs))))"
  "stopRoles xs = [] \<Longrightarrow> stopRoles (take k xs) = []"
  "startRoles xs = [] \<Longrightarrow> startRoles (take k xs) = []"
proof -
  have s: "startRoles xs = startRoles (take k xs) @ startRoles (drop k xs)"
    "stopRoles xs = stopRoles (take k xs) @ stopRoles (drop k xs)"
    by (simp_all flip: startRoles_simps(7) stopRoles_simps(7))
  show "sorted (map rank (startRoles xs)) \<Longrightarrow> sorted (map rank (startRoles (take k xs)))"
    unfolding s(1) by (simp add: sorted_append)
  show "sorted (rev (map rank (stopRoles xs))) \<Longrightarrow> sorted (rev (map rank (stopRoles (take k xs))))"
    unfolding s(2) by (simp add: sorted_append)
  show "stopRoles xs = [] \<Longrightarrow> stopRoles (take k xs) = []" unfolding s(2) by simp
  show "startRoles xs = [] \<Longrightarrow> startRoles (take k xs) = []" unfolding s(1) by simp
qed

lemma calls_prefix:
  "cs = upToCut P (callsOf (handlesI L) s0) \<Longrightarrow> cs = callsOf (handlesI (take (length cs) L)) s0"
  "ds = upToCut P (callsOf (handlesD M) s0) \<Longrightarrow> ds = callsOf (handlesD (take (length ds) M)) s0"
  using upToCut_take[of P "callsOf (handlesI L) s0"] upToCut_take[of P "callsOf (handlesD M) s0"]
  by (simp_all add: handles_take callsOf_take)

lemma keeps_after:
  "\<forall>it\<in>set run. keepsAttribute k (Handle_i it) \<Longrightarrow>
     map_of (attributes (sessionAfter (handlesI run) s)) k = map_of (attributes s) k"
  "\<forall>d\<in>set drun. keepsAttribute k (Handle_d d) \<Longrightarrow>
     map_of (attributes (sessionAfter (handlesD drun) s)) k = map_of (attributes s) k"
  by (rule sessionAfter_keeps, simp add: handlesI_def handlesD_def)+

lemma handleInterceptor_session:
  "attributes (session (handleInterceptor mt srt en t0 t1 s))
     = AList.update ''Interceptor.End'' (VDuration (t1 - timestamp s))
         (attributes (sessionAfter
            (handlesI (take (length (handleCallsI (events (handleInterceptor mt srt en t0 t1 s))))
               (srt (findMatches mt en s))))
            (AddAttribute s ''Interceptor.Start'' (VTime t0))))"
proof -
  let ?s0 = "AddAttribute s (''Interceptor'' @ ''.Start'') (VTime t0)"
  obtain s1 evs fl where b: "interceptorBody mt srt en ?s0 = (s1, evs, fl)"
    by (cases "interceptorBody mt srt en ?s0")
  obtain s2 evs2 fl2 where m: "runMatches en (srt (findMatches mt en ?s0)) ?s0 = (s2, evs2, fl2)"
    by (cases "runMatches en (srt (findMatches mt en ?s0)) ?s0")
  have ml: "handleCallsI (matchLog mt en ?s0) = []"
    by (rule handleCalls_empty) (simp add: matchLog_def)
  from b m have eq: "s1 = s2"
    "evs = matchLog mt en ?s0 @ evs2 @ (if fl2 = Continue then [Send 1] else [])"
    by (auto simp: interceptorBody_def split: flow.splits)
  have dbg: "\<forall>e\<in>set [Log LDebug (MsgStage 0 (topic s))]. \<exists>l m. e = Log l m" by simp
  note sc = stage_calls(1)[where body="interceptorBody mt srt en" and en=en and n=0
      and ?t1.0=t1, OF b dbg]
  note f = stage_fields[where body="interceptorBody mt srt en" and en=en and n=0
      and dbg="[Log LDebug (MsgStage 0 (topic s))]" and ?t1.0=t1, OF b]
  have c: "handleCallsI (events (handleInterceptor mt srt en t0 t1 s)) = handleCallsI evs2"
    using sc eq ml by (simp add: handleInterceptor_def)
  have ts: "timestamp s1 = timestamp s" using interceptorBody_facts(1)[OF b] by simp
  have "attributes (session (handleInterceptor mt srt en t0 t1 s))
      = AList.update ''Interceptor.End'' (VDuration (t1 - timestamp s)) (attributes s1)"
    using f ts by (simp add: handleInterceptor_def AddAttribute_def Escaped_def)
  then show ?thesis using runMatches_session[OF m] eq(1) c by simp
qed

lemma handleDriver_session:
  "attributes (session (handleDriver mt en t0 t1 s))
     = AList.update ''Driver.End'' (VDuration (t1 - timestamp s))
         (attributes (sessionAfter
            (handlesD (take (length (handleCallsD (events (handleDriver mt en t0 t1 s))))
               (filter (\<lambda>d. anyTopicMatches mt (GetTopicExpr_d d) (topic s)) (drivers en))))
            (AddAttribute s ''Driver.Start'' (VTime t0))))"
proof -
  let ?s0 = "AddAttribute s (''Driver'' @ ''.Start'') (VTime t0)"
  obtain s1 evs fl where b: "driverBody mt en ?s0 = (s1, evs, fl)"
    by (cases "driverBody mt en ?s0")
  obtain s2 evs2 fl2 where m: "runDrivers mt en (drivers en) ?s0 = (s2, evs2, fl2)"
    by (cases "runDrivers mt en (drivers en) ?s0")
  from b m have eq: "s1 = s2" "evs = evs2 @ (if fl2 = Continue then [Send 2] else [])"
    by (auto simp: driverBody_def split: flow.splits)
  have dbg: "\<forall>e\<in>set [Log LDebug (MsgStage 1 (topic s))]. \<exists>l m. e = Log l m" by simp
  note sc = stage_calls(2)[where body="driverBody mt en" and en=en and n=1
      and ?t1.0=t1, OF b dbg]
  note f = stage_fields[where body="driverBody mt en" and en=en and n=1
      and dbg="[Log LDebug (MsgStage 1 (topic s))]" and ?t1.0=t1, OF b]
  have c: "handleCallsD (events (handleDriver mt en t0 t1 s)) = handleCallsD evs2"
    using sc eq by (simp add: handleDriver_def)
  have ts: "timestamp s1 = timestamp s" using driverBody_facts(1)[OF b] by simp
  have "attributes (session (handleDriver mt en t0 t1 s))
      = AList.update ''Driver.End'' (VDuration (t1 - timestamp s)) (attributes s1)"
    using f ts by (simp add: handleDriver_def AddAttribute_def Escaped_def)
  then show ?thesis using runDrivers_session[OF m] eq(1) c by simp
qed

lemma handleOutput_session:
  "attributes (session (handleOutput en t0 t1 s))
     = AList.update ''Output.End'' (VDuration (t1 - timestamp s))
         (AList.update ''Output.Start'' (VTime t0) (attributes s))"
proof -
  let ?s0 = "AddAttribute s (''Output'' @ ''.Start'') (VTime t0)"
  obtain s1 evs fl where b: "outputBody ?s0 = (s1, evs, fl)" by (cases "outputBody ?s0")
  note f = stage_fields[where body=outputBody and en=en and n=2
      and dbg="Log LDebug (MsgStage 2 (topic s))
          # map (\<lambda>(k, v). Log LDebug (MsgSessionAttr k v)) (attributes s)" and ?t1.0=t1, OF b]
  have "s1 = ?s0" using outputBody_facts[OF b] by simp
  then show ?thesis using f by (simp add: handleOutput_def AddAttribute_def Escaped_def)
qed

lemma stage_timing_events:
  "\<exists>pre mid post. events (handleInterceptor mt srt en t0 t1 s)
        = pre @ SetAttr ''Interceptor.Start'' (VTime t0) # mid
            @ SetAttr ''Interceptor.End'' (VDuration (t1 - timestamp s)) # post
        \<and> invokedI pre = [] \<and> sends pre = [] \<and> invokedI post = [] \<and> sends post = []"
  "\<exists>pre mid post. events (handleDriver mt en t0 t1 s)
        = pre @ SetAttr ''Driver.Start'' (VTime t0) # mid
            @ SetAttr ''Driver.End'' (VDuration (t1 - timestamp s)) # post
        \<and> invokedD pre = [] \<and> sends pre = [] \<and> invokedD post = [] \<and> sends post = []"
  "\<exists>pre mid post. events (handleOutput en t0 t1 s)
        = pre @ SetAttr ''Output.Start'' (VTime t0) # mid
            @ SetAttr ''Output.End'' (VDuration (t1 - timestamp s)) # post
        \<and> completions pre = [] \<and> completions post = []"
proof -
  show "\<exists>pre mid post. events (handleInterceptor mt srt en t0 t1 s)
        = pre @ SetAttr ''Interceptor.Start'' (VTime t0) # mid
            @ SetAttr ''Interceptor.End'' (VDuration (t1 - timestamp s)) # post
        \<and> invokedI pre = [] \<and> sends pre = [] \<and> invokedI post = [] \<and> sends post = []"
  proof -
    obtain s1 evs fl where b: "interceptorBody mt srt en
        (AddAttribute s (''Interceptor'' @ ''.Start'') (VTime t0)) = (s1, evs, fl)"
      by (cases "interceptorBody mt srt en
        (AddAttribute s (''Interceptor'' @ ''.Start'') (VTime t0))")
    have ts: "timestamp s1 = timestamp s" using interceptorBody_facts(1)[OF b] by simp
    have dbg: "\<forall>e\<in>set [Log LDebug (MsgStage 0 (topic s))]. \<exists>l m. e = Log l m" by simp
    show ?thesis
      using stage_timing_general[where body="interceptorBody mt srt en" and en=en and n=0
          and ?t1.0=t1, OF b ts dbg]
      by (simp add: handleInterceptor_def) blast
  qed
  show "\<exists>pre mid post. events (handleDriver mt en t0 t1 s)
        = pre @ SetAttr ''Driver.Start'' (VTime t0) # mid
            @ SetAttr ''Driver.End'' (VDuration (t1 - timestamp s)) # post
        \<and> invokedD pre = [] \<and> sends pre = [] \<and> invokedD post = [] \<and> sends post = []"
  proof -
    obtain s1 evs fl where b: "driverBody mt en
        (AddAttribute s (''Driver'' @ ''.Start'') (VTime t0)) = (s1, evs, fl)"
      by (cases "driverBody mt en (AddAttribute s (''Driver'' @ ''.Start'') (VTime t0))")
    have ts: "timestamp s1 = timestamp s" using driverBody_facts(1)[OF b] by simp
    have dbg: "\<forall>e\<in>set [Log LDebug (MsgStage 1 (topic s))]. \<exists>l m. e = Log l m" by simp
    show ?thesis
      using stage_timing_general[where body="driverBody mt en" and en=en and n=1
          and ?t1.0=t1, OF b ts dbg]
      by (simp add: handleDriver_def) blast
  qed
  show "\<exists>pre mid post. events (handleOutput en t0 t1 s)
        = pre @ SetAttr ''Output.Start'' (VTime t0) # mid
            @ SetAttr ''Output.End'' (VDuration (t1 - timestamp s)) # post
        \<and> completions pre = [] \<and> completions post = []"
  proof -
    obtain s1 evs fl where b: "outputBody
        (AddAttribute s (''Output'' @ ''.Start'') (VTime t0)) = (s1, evs, fl)"
      by (cases "outputBody (AddAttribute s (''Output'' @ ''.Start'') (VTime t0))")
    have ts: "timestamp s1 = timestamp s" using outputBody_facts[OF b] by simp
    have dbg: "\<forall>e\<in>set (Log LDebug (MsgStage 2 (topic s))
          # map (\<lambda>(k, v). Log LDebug (MsgSessionAttr k v)) (attributes s)). \<exists>l m. e = Log l m"
      by auto
    show ?thesis
      using stage_timing_general[where body=outputBody and en=en and n=2
          and ?t1.0=t1, OF b ts dbg]
      by (simp add: handleOutput_def) blast
  qed
qed

section \<open>Session intake: what the invoker builds\<close>

text \<open>
  C9. For every event submitted through the invoker, the session built has inbound topic
  and data equal to the event's, an outbound with the same topic and an empty data
  mapping, and it is enqueued on stage 0 and on no other stage.
\<close>

theorem invoker_builds_session:
  "Topic_in (inbound (session (invoker en now income cb))) = topic_ev income
   \<and> Data_in (inbound (session (invoker en now income cb))) = data_ev income
   \<and> Topic_out (outbound (session (invoker en now income cb))) = topic_ev income
   \<and> Data_out (outbound (session (invoker en now income cb))) = Map.empty
   \<and> sends (events (invoker en now income cb)) = [0]
   \<and> deliver (events (invoker en now income cb)) (session (invoker en now income cb)) d
       = d\<lparr>lv0 := lv0 d @ [session (invoker en now income cb)]\<rparr>"
  by (simp add: invoker_def newSession_def OnIfLogV_def sends_def enqueue_def)

section \<open>Drop short-circuit\<close>

text \<open>
  C1. If a matching interceptor's \<open>Handle\<close> returns the drop sentinel, the interceptor
  stage sets \<open>outbound["error"]\<close> to \<open>InterceptorDropped\<close>, calls no further interceptor,
  sends the session on stage 2 only and raises nothing; followed through the dispatcher, the
  session reaches no driver, and the completion callback (when it is not nil) is called
  once, on the outbound data with the error field.
\<close>

theorem drop_short_circuit:
  assumes "IHandle r (Return (Some ErrInterceptorDropped))
             \<in> set (events (handleInterceptor mt srt en (fst (clk 0)) (snd (clk 0)) s))"
  shows "Data_out (outbound (session (handleInterceptor mt srt en (fst (clk 0)) (snd (clk 0)) s)))
           ''error'' = Some (VString ''InterceptorDropped'')
    \<and> (\<exists>pre post. events (handleInterceptor mt srt en (fst (clk 0)) (snd (clk 0)) s)
           = pre @ IHandle r (Return (Some ErrInterceptorDropped)) # post \<and> invokedI post = [])
    \<and> sends (events (handleInterceptor mt srt en (fst (clk 0)) (snd (clk 0)) s)) = [2]
    \<and> raised (handleInterceptor mt srt en (fst (clk 0)) (snd (clk 0)) s) = None
    \<and> invokedD (serveLv0 mt srt en clk s) = []
    \<and> completions (serveLv0 mt srt en clk s)
        = (case onCompletedFunc s of
             None \<Rightarrow> []
           | Some f \<Rightarrow> [Data_out (outbound
                (session (handleInterceptor mt srt en (fst (clk 0)) (snd (clk 0)) s)))])"
proof -
  let ?t0 = "fst (clk 0)" and ?t1 = "snd (clk 0)"
  let ?R = "handleInterceptor mt srt en ?t0 ?t1 s"
  let ?s0 = "AddAttribute s (''Interceptor'' @ ''.Start'') (VTime ?t0)"
  let ?drop = "IHandle r (Return (Some ErrInterceptorDropped))"
  obtain s1 evs fl where b: "interceptorBody mt srt en ?s0 = (s1, evs, fl)"
    by (cases "interceptorBody mt srt en ?s0")
  obtain s2 evs2 fl2 where m: "runMatches en (srt (findMatches mt en ?s0)) ?s0 = (s2, evs2, fl2)"
    by (cases "runMatches en (srt (findMatches mt en ?s0)) ?s0")
  have dbg: "\<forall>e\<in>set [Log LDebug (MsgStage 0 (topic s))]. \<exists>l m. e = Log l m" by simp
  note o = stage_observers[where body="interceptorBody mt srt en" and en=en and n=0 and ?t1.0="?t1", OF b dbg]
  note f = stage_fields[where body="interceptorBody mt srt en" and en=en and n=0
      and dbg="[Log LDebug (MsgStage 0 (topic s))]" and ?t1.0="?t1", OF b]
  have R: "?R = stage en 0 ''Interceptor'' [Log LDebug (MsgStage 0 (topic s))] ?t0 ?t1
                  (interceptorBody mt srt en) s"
    by (simp add: handleInterceptor_def)
  from assms have "?drop \<in> set evs" using o(5) R by simp
  with b m have in2: "?drop \<in> set evs2"
    by (auto simp: interceptorBody_def split: flow.splits)
  from runMatches_drop[OF m in2] obtain pre where
    fl2: "fl2 = Returned"
    and err: "Data_out (outbound s2) ''error'' = Some (VString ''InterceptorDropped'')"
    and pre: "evs2 = pre @ [?drop, Log LDebug (MsgDropped ErrInterceptorDropped), Send 2]"
    by blast
  from b m fl2 have eq: "s1 = s2" "fl = Returned" "evs = matchLog mt en ?s0 @ evs2"
    by (auto simp: interceptorBody_def)
  have c1: "Data_out (outbound (session ?R)) ''error'' = Some (VString ''InterceptorDropped'')"
    using f R eq err by simp
  have ev: "events ?R = (OnIfLogV en [Log LDebug (MsgStage 0 (topic s))]
              @ [SetAttr (''Interceptor'' @ ''.Start'') (VTime ?t0)] @ matchLog mt en ?s0 @ pre)
            @ ?drop # ([Log LDebug (MsgDropped ErrInterceptorDropped), Send 2,
                SetAttr (''Interceptor'' @ ''.End'') (VDuration (Escaped s1 ?t1))])"
    using f R eq pre by (simp add: recover_def checkRecover_def)
  have c2: "\<exists>pre post. events ?R = pre @ ?drop # post \<and> invokedI post = []"
    by (rule exI, rule exI, rule conjI, rule ev) simp
  have c3: "sends (events ?R) = [2]"
    using o(4) R interceptorBody_facts(4)[OF b] eq by simp
  have c4: "raised ?R = None"
    using f R eq by (simp add: recover_def checkRecover_def)
  have serve: "serveLv0 mt srt en clk s = events ?R @ serveLv2 en clk (session ?R)"
    using c3 c4 by (simp add: serveLv0_def Let_def)
  have c5: "invokedD (serveLv0 mt srt en clk s) = []"
    using serve o(2) R interceptorBody_facts(5)[OF b] handleOutput_observers(2)
    by (simp add: serveLv2_def)
  have cb: "onCompletedFunc (session ?R) = onCompletedFunc s"
    using f R eq interceptorBody_facts(3)[OF b] by simp
  have c6: "completions (serveLv0 mt srt en clk s)
      = (case onCompletedFunc s of None \<Rightarrow> [] | Some f \<Rightarrow> [Data_out (outbound (session ?R))])"
    using serve o(3) R interceptorBody_facts(6)[OF b]
      handleOutput_observers(4)[of en "fst (clk 2)" "snd (clk 2)" "session ?R"] cb
    by (simp add: serveLv2_def split: option.splits)
  from c1 c2 c3 c4 c5 c6 show ?thesis by blast
qed

theorem drop_short_circuit_witness:
  "IHandle 1 (Return (Some ErrInterceptorDropped))
     \<in> set (events (handleInterceptor exactTopic (sort_key GetPriority)
          (exEngine False [exInterceptor 2 20 nilHandle, exInterceptor 1 10 dropHandle]
             [exDriver 5 nilHandle])
          (fst (exClock 0)) (snd (exClock 0)) exSession))
   \<and> invokedI (serveLv0 exactTopic (sort_key GetPriority)
          (exEngine False [exInterceptor 2 20 nilHandle, exInterceptor 1 10 dropHandle]
             [exDriver 5 nilHandle]) exClock exSession) = [1]
   \<and> invokedD (serveLv0 exactTopic (sort_key GetPriority)
          (exEngine False [exInterceptor 2 20 nilHandle, exInterceptor 1 10 dropHandle]
             [exDriver 5 nilHandle]) exClock exSession) = []"
  using drop_short_circuit[of 1 exactTopic "sort_key GetPriority"
          "exEngine False [exInterceptor 2 20 nilHandle, exInterceptor 1 10 dropHandle]
             [exDriver 5 nilHandle]" exClock exSession]
  by (simp add: ex_defs handleInterceptor_def stage_def interceptorBody_def findMatches_def
        matchLog_def OnIfLogV_def callHandle_def AddAttribute_def AddDataField_def newSession_def
        recover_def checkRecover_def prepend_def serveLv0_def serveLv2_def handleOutput_def
        outputBody_def Escaped_def)

section \<open>Errors of interceptors\<close>




section \<open>Routing by topic\<close>

text \<open>
  C6, as stated: the components whose \<open>Handle\<close> is invoked for a session are exactly those
  with a matching topic expression. This fails when the chain is cut short: the first
  interceptor drops, and the second matching interceptor and the matching driver are never
  called.
\<close>

theorem routing_by_topic_counterexample:
  "map ref_i (findMatches exactTopic
      (exEngine False [exInterceptor 1 10 dropHandle, exInterceptor 2 20 nilHandle]
         [exDriver 5 nilHandle]) exSession) = [1, 2]
   \<and> map ref_d (filter (\<lambda>d. anyTopicMatches exactTopic (GetTopicExpr_d d) (topic exSession))
      (drivers (exEngine False [exInterceptor 1 10 dropHandle, exInterceptor 2 20 nilHandle]
         [exDriver 5 nilHandle]))) = [5]
   \<and> invokedI (serveLv0 exactTopic (sort_key GetPriority)
      (exEngine False [exInterceptor 1 10 dropHandle, exInterceptor 2 20 nilHandle]
         [exDriver 5 nilHandle]) exClock exSession) = [1]
   \<and> invokedD (serveLv0 exactTopic (sort_key GetPriority)
      (exEngine False [exInterceptor 1 10 dropHandle, exInterceptor 2 20 nilHandle]
         [exDriver 5 nilHandle]) exClock exSession) = []"
  by (simp add: ex_defs handleInterceptor_def stage_def interceptorBody_def findMatches_def
        matchLog_def OnIfLogV_def callHandle_def AddAttribute_def AddDataField_def newSession_def
        recover_def checkRecover_def prepend_def serveLv0_def serveLv2_def handleOutput_def
        outputBody_def Escaped_def)

text \<open>
  C6, amended: \<open>anyTopicMatches\<close> is true iff at least one expression of the list matches
  the topic, so an empty list matches nothing; the interceptors and the drivers whose
  \<open>Handle\<close> is invoked for a session are among the registered components with a matching
  topic expression, and they are exactly those when the stage runs to its end (the
  interceptor stage sends the session on stage 1, the driver stage on stage 2).
\<close>

theorem routing_by_topic:
  "(anyTopicMatches mt es tp \<longleftrightarrow> (\<exists>e\<in>set es. mt e tp))
   \<and> \<not> anyTopicMatches mt [] tp
   \<and> (sort_contract srt \<longrightarrow>
        set (invokedI (events (handleInterceptor mt srt en t0 t1 s)))
          \<subseteq> ref_i ` {i \<in> set (interceptors en). anyTopicMatches mt (GetTopicExpr_i i) (topic s)})
   \<and> set (invokedD (events (handleDriver mt en t0 t1 s)))
          \<subseteq> ref_d ` {d \<in> set (drivers en). anyTopicMatches mt (GetTopicExpr_d d) (topic s)}
   \<and> (sort_contract srt \<and> sends (events (handleInterceptor mt srt en t0 t1 s)) = [1] \<longrightarrow>
        set (invokedI (events (handleInterceptor mt srt en t0 t1 s)))
          = ref_i ` {i \<in> set (interceptors en). anyTopicMatches mt (GetTopicExpr_i i) (topic s)})
   \<and> (sends (events (handleDriver mt en t0 t1 s)) = [2] \<longrightarrow>
        set (invokedD (events (handleDriver mt en t0 t1 s)))
          = ref_d ` {d \<in> set (drivers en). anyTopicMatches mt (GetTopicExpr_d d) (topic s)})"
proof -
  let ?L = "srt (findMatches mt en s)"
  let ?M = "{i \<in> set (interceptors en). anyTopicMatches mt (GetTopicExpr_i i) (topic s)}"
  let ?DL = "filter (\<lambda>d. anyTopicMatches mt (GetTopicExpr_d d) (topic s)) (drivers en)"
  obtain s1 evs fl where b: "interceptorBody mt srt en
      (AddAttribute s ''Interceptor.Start'' (VTime t0)) = (s1, evs, fl)"
    by (cases "interceptorBody mt srt en (AddAttribute s ''Interceptor.Start'' (VTime t0))")
  note h = handleInterceptor_body[OF b]
  obtain s2 evs2 fl2 where d: "driverBody mt en (AddAttribute s ''Driver.Start'' (VTime t0))
      = (s2, evs2, fl2)"
    by (cases "driverBody mt en (AddAttribute s ''Driver.Start'' (VTime t0))")
  note g = handleDriver_body[OF d]
  have setL: "set ?L = ?M" if "sort_contract srt"
    using sort_contract_sorted[OF that, of "findMatches mt en s"] findMatches_set[of mt en s]
    by (metis set_mset_mset)
  have a1: "sort_contract srt \<longrightarrow>
      set (invokedI (events (handleInterceptor mt srt en t0 t1 s))) \<subseteq> ref_i ` ?M"
  proof
    assume sc: "sort_contract srt"
    have "set (invokedI (events (handleInterceptor mt srt en t0 t1 s)))
        = ref_i ` set (take (length (invokedI evs)) ?L)"
      using h(1) h(6) by (metis set_map)
    also have "\<dots> \<subseteq> ref_i ` set ?L" by (intro image_mono set_take_subset)
    finally show "set (invokedI (events (handleInterceptor mt srt en t0 t1 s))) \<subseteq> ref_i ` ?M"
      using setL[OF sc] by simp
  qed
  have a2: "set (invokedD (events (handleDriver mt en t0 t1 s))) \<subseteq> ref_d ` set ?DL"
  proof -
    have "set (invokedD (events (handleDriver mt en t0 t1 s)))
        = ref_d ` set (take (length (invokedD evs2)) ?DL)"
      using g(1) g(6) by (metis set_map)
    also have "\<dots> \<subseteq> ref_d ` set ?DL" by (intro image_mono set_take_subset)
    finally show ?thesis .
  qed
  have a3: "sort_contract srt \<and> sends (events (handleInterceptor mt srt en t0 t1 s)) = [1] \<longrightarrow>
      set (invokedI (events (handleInterceptor mt srt en t0 t1 s))) = ref_i ` ?M"
  proof
    assume as: "sort_contract srt \<and> sends (events (handleInterceptor mt srt en t0 t1 s)) = [1]"
    with h(4) have "fl = Continue" by (cases fl) simp_all
    from h(7)[OF this] h(1) have "set (invokedI (events (handleInterceptor mt srt en t0 t1 s)))
        = ref_i ` set ?L" by simp
    with setL as show "set (invokedI (events (handleInterceptor mt srt en t0 t1 s))) = ref_i ` ?M"
      by simp
  qed
  have a4: "sends (events (handleDriver mt en t0 t1 s)) = [2] \<longrightarrow>
      set (invokedD (events (handleDriver mt en t0 t1 s))) = ref_d ` set ?DL"
  proof
    assume "sends (events (handleDriver mt en t0 t1 s)) = [2]"
    with g(4) have "fl2 = Continue" by (cases fl2) simp_all
    from g(7)[OF this] g(1) show "set (invokedD (events (handleDriver mt en t0 t1 s)))
        = ref_d ` set ?DL" by simp
  qed
  have a0: "anyTopicMatches mt es tp \<longleftrightarrow> (\<exists>e\<in>set es. mt e tp)"
    by (rule anyTopicMatches_iff)
  from a0 a1 a2 a3 a4 show ?thesis by simp
qed

theorem routing_by_topic_witness:
  "sort_contract (sort_key GetPriority :: (string, nat) Interceptor list \<Rightarrow> _)
   \<and> sends (events (handleInterceptor exactTopic (sort_key GetPriority)
        (exEngine False [exInterceptor 1 10 nilHandle,
            \<lparr> ref_i = 2, GetPriority = 5, GetTopicExpr_i = [''y''], Handle_i = nilHandle \<rparr>] [])
        100 105 exSession)) = [1]
   \<and> set (invokedI (events (handleInterceptor exactTopic (sort_key GetPriority)
        (exEngine False [exInterceptor 1 10 nilHandle,
            \<lparr> ref_i = 2, GetPriority = 5, GetTopicExpr_i = [''y''], Handle_i = nilHandle \<rparr>] [])
        100 105 exSession))) = {1}"
  using routing_by_topic[of exactTopic "[''y'']" "''x''" "sort_key GetPriority"
      "exEngine False [exInterceptor 1 10 nilHandle,
            \<lparr> ref_i = 2, GetPriority = 5, GetTopicExpr_i = [''y''], Handle_i = nilHandle \<rparr>] []"
      100 105 exSession] sort_key_contract
  by (simp add: ex_defs handleInterceptor_def stage_def interceptorBody_def findMatches_def
        matchLog_def OnIfLogV_def callHandle_def AddAttribute_def newSession_def
        recover_def checkRecover_def prepend_def)

section \<open>Priority order of the interceptors\<close>

text \<open>
  C2. The matching interceptors run one after the other in ascending priority order.
  With the comparator \<open>Less\<close> and the library's sort, the sorted matches are a
  rearrangement of the matches with ascending priorities; the calls of \<open>Handle\<close> that the
  stage makes are the calls on these interceptors in this order, each on the session as
  the call before it left it, up to and including the first whose result ends the chain.
  So the interceptors that run are an initial part \<open>run\<close> of the sorted matches, a matching
  interceptor of lower priority than one that ran has run before it, and interceptors
  are left out only behind a call that ended the chain.
\<close>

theorem interceptors_priority_order:
  assumes "sort_Sort_contract gsort"
  shows "mset (gsort Less (findMatches mt en s)) = mset (findMatches mt en s)
    \<and> sorted (map GetPriority (gsort Less (findMatches mt en s)))
    \<and> handleCallsI (events (handleInterceptor mt (gsort Less) en t0 t1 s))
        = upToCut (cutsI en)
            (callsOf (handlesI (gsort Less (findMatches mt en s)))
               (AddAttribute s ''Interceptor.Start'' (VTime t0)))
    \<and> (\<exists>run rest. gsort Less (findMatches mt en s) = run @ rest
        \<and> invokedI (events (handleInterceptor mt (gsort Less) en t0 t1 s)) = map ref_i run
        \<and> sorted (map GetPriority run)
        \<and> (\<forall>a\<in>set (findMatches mt en s). \<forall>j<length run.
              GetPriority a < GetPriority (run ! j) \<longrightarrow> (\<exists>i<j. run ! i = a))
        \<and> (rest \<noteq> [] \<longrightarrow> run \<noteq> []
              \<and> cutsI en (snd (last (handleCallsI
                    (events (handleInterceptor mt (gsort Less) en t0 t1 s))))))
        \<and> (1 \<in> set (sends (events (handleInterceptor mt (gsort Less) en t0 t1 s)))
              \<longrightarrow> rest = []))"
proof -
  let ?L = "gsort Less (findMatches mt en s)"
  let ?R = "handleInterceptor mt (gsort Less) en t0 t1 s"
  let ?s0 = "AddAttribute s ''Interceptor.Start'' (VTime t0)"
  let ?C = "callsOf (handlesI ?L) ?s0"
  note sc = sort_contract_sorted[OF sort_Sort_Less[OF assms], of "findMatches mt en s"]
  have srtL: "sorted (map GetPriority ?L)" and ms: "mset ?L = mset (findMatches mt en s)"
    using sc by simp_all
  have calls: "handleCallsI (events ?R) = upToCut (cutsI en) ?C"
    by (rule handleInterceptor_calls)
  define k where "k = length (handleCallsI (events ?R))"
  have tk: "handleCallsI (events ?R) = take k ?C"
    using calls upToCut_take[of "cutsI en" ?C] k_def by simp
  have kle: "k \<le> length ?L"
  proof -
    have "length (take k ?C) = k" using tk k_def by simp
    then show ?thesis by (simp add: handlesI_def)
  qed
  have inv: "invokedI (events ?R) = map ref_i (take k ?L)"
  proof -
    have "invokedI (events ?R) = map fst (take k ?C)"
      using handleCalls_invoked(1)[of "events ?R"] tk by simp
    also have "\<dots> = take k (map fst ?C)" by (simp add: take_map)
    also have "\<dots> = map ref_i (take k ?L)" by (simp add: callsOf_refs take_map)
    finally show ?thesis .
  qed
  have s1: "sorted (map GetPriority (take k ?L))"
    using srtL by (simp add: take_map[symmetric] sorted_wrt_take)
  have pair: "\<forall>a\<in>set (findMatches mt en s). \<forall>j<length (take k ?L).
      GetPriority a < GetPriority (take k ?L ! j) \<longrightarrow> (\<exists>i<j. take k ?L ! i = a)"
  proof (intro ballI allI impI)
    fix a j
    assume a: "a \<in> set (findMatches mt en s)" and j: "j < length (take k ?L)"
      and lt: "GetPriority a < GetPriority (take k ?L ! j)"
    from a ms have aL: "a \<in> set ?L" by (metis set_mset_mset)
    from j have jk: "j < k" "j < length ?L" by simp_all
    with lt have "GetPriority a < GetPriority (?L ! j)" by simp
    from sorted_earlier[OF srtL aL jk(2) this] obtain i where "i < j" "?L ! i = a" by blast
    with jk show "\<exists>i<j. take k ?L ! i = a" by auto
  qed
  have cut: "drop k ?L \<noteq> [] \<longrightarrow> take k ?L \<noteq> []
      \<and> cutsI en (snd (last (handleCallsI (events ?R))))"
  proof
    assume "drop k ?L \<noteq> []"
    then have "k < length ?L" by simp
    then have lt: "length (upToCut (cutsI en) ?C) < length ?C" using calls k_def by simp
    from upToCut_short[OF lt] calls have ne: "handleCallsI (events ?R) \<noteq> []"
      and c: "cutsI en (snd (last (handleCallsI (events ?R))))" by simp_all
    from ne k_def have "k \<noteq> 0" by simp
    with \<open>k < length ?L\<close> have "take k ?L \<noteq> []" by auto
    with c show "take k ?L \<noteq> [] \<and> cutsI en (snd (last (handleCallsI (events ?R))))" by simp
  qed
  have full: "1 \<in> set (sends (events ?R)) \<longrightarrow> drop k ?L = []"
  proof
    assume one: "1 \<in> set (sends (events ?R))"
    obtain s1' evs fl where b: "interceptorBody mt (gsort Less) en ?s0 = (s1', evs, fl)"
      by (cases "interceptorBody mt (gsort Less) en ?s0")
    note h = handleInterceptor_body[OF b]
    from one h(4) have "fl = Continue" by (cases fl) simp_all
    with h(7) h(1) have "length (invokedI (events ?R)) = length ?L" by simp
    with inv kle show "drop k ?L = []" by simp
  qed
  have "?L = take k ?L @ drop k ?L" by simp
  then have ex: "\<exists>run rest. ?L = run @ rest
        \<and> invokedI (events ?R) = map ref_i run
        \<and> sorted (map GetPriority run)
        \<and> (\<forall>a\<in>set (findMatches mt en s). \<forall>j<length run.
              GetPriority a < GetPriority (run ! j) \<longrightarrow> (\<exists>i<j. run ! i = a))
        \<and> (rest \<noteq> [] \<longrightarrow> run \<noteq> []
              \<and> cutsI en (snd (last (handleCallsI (events ?R)))))
        \<and> (1 \<in> set (sends (events ?R)) \<longrightarrow> rest = [])"
    using inv s1 pair cut full by blast
  from ms srtL calls ex show ?thesis by blast
qed

theorem interceptors_priority_order_witness:
  "sort_Sort_contract (insertionSort :: ((string, nat) Interceptor \<Rightarrow> _) \<Rightarrow> _)
   \<and> handleCallsI (events (handleInterceptor exactTopic (insertionSort Less)
          (exEngine False [exInterceptor 1 10 nilHandle, exInterceptor 2 5 errHandle,
             exInterceptor 3 20 dropHandle, exInterceptor 4 30 nilHandle] [])
          100 105 exSession))
       = [(2, Return (Some (ErrOther ''failed''))), (1, Return None),
          (3, Return (Some ErrInterceptorDropped))]"
  using interceptors_priority_order[OF insertionSort_contract, of exactTopic
          "exEngine False [exInterceptor 1 10 nilHandle, exInterceptor 2 5 errHandle,
             exInterceptor 3 20 dropHandle, exInterceptor 4 30 nilHandle] []" exSession 100 105]
    insertionSort_contract
  by (simp add: ex_defs findMatches_def insertionSort_def Less_def callHandle_def
        AddAttribute_def newSession_def)

section \<open>The driver stage: fan-out\<close>

text \<open>
  C3, as stated: the driver stage goes on to the next driver whether or not \<open>Handle\<close>
  returned an error, and always sends the session on the output stage. With fail-fast on
  this fails: the error of the first driver is written at level Panic, zerolog panics,
  the second matching driver is not called and the session is sent to no stage.
\<close>

theorem driver_fan_out_counterexample:
  "map ref_d (filter (\<lambda>d. anyTopicMatches exactTopic (GetTopicExpr_d d) (topic exSession))
       (drivers (exEngine True [] [exDriver 1 errHandle, exDriver 2 nilHandle]))) = [1, 2]
   \<and> snd (errHandle exSession) = Return (Some (ErrOther ''failed''))
   \<and> invokedD (events (handleDriver exactTopic
        (exEngine True [] [exDriver 1 errHandle, exDriver 2 nilHandle]) 100 105 exSession)) = [1]
   \<and> sends (events (handleDriver exactTopic
        (exEngine True [] [exDriver 1 errHandle, exDriver 2 nilHandle]) 100 105 exSession)) = []"
  by (simp add: ex_defs handleDriver_def stage_def driverBody_def
        OnIfLogV_def callHandle_def AddAttribute_def newSession_def
        recover_def checkRecover_def prepend_def Msgf_def failFastLogger_def)

text \<open>
  C3, amended: the driver stage goes through the registered drivers in registration
  order and calls \<open>Handle\<close> on exactly those whose topic expressions match the session's
  topic, one after the other, each on the session as the call before it left it, going on
  to the next driver whether or not a call returned an error; only a call that panics
  or, with fail-fast on, returns an error ends the iteration (\<open>panicsD\<close>). The calls made
  are the calls on the matching drivers up to and including the first such call; the session
  is sent on the output stage (stage 2), after the iteration, exactly when no call made is
  such a call; and when no call on a matching driver is one, every matching driver is called
  and nothing is raised. Drivers that do not match play no part.
\<close>

theorem driver_fan_out:
  "handleCallsD (events (handleDriver mt en t0 t1 s))
     = upToCut (panicsD en)
         (callsOf (handlesD (filter (\<lambda>d. anyTopicMatches mt (GetTopicExpr_d d) (topic s))
                      (drivers en)))
            (AddAttribute s ''Driver.Start'' (VTime t0)))
   \<and> sends (events (handleDriver mt en t0 t1 s))
       = (if \<exists>c\<in>set (handleCallsD (events (handleDriver mt en t0 t1 s))). panicsD en (snd c)
          then [] else [2])
   \<and> ((\<forall>c\<in>set (callsOf (handlesD (filter (\<lambda>d. anyTopicMatches mt (GetTopicExpr_d d) (topic s))
                      (drivers en)))
            (AddAttribute s ''Driver.Start'' (VTime t0))). \<not> panicsD en (snd c))
        \<longrightarrow> handleCallsD (events (handleDriver mt en t0 t1 s))
              = callsOf (handlesD (filter (\<lambda>d. anyTopicMatches mt (GetTopicExpr_d d) (topic s))
                      (drivers en)))
                  (AddAttribute s ''Driver.Start'' (VTime t0))
            \<and> invokedD (events (handleDriver mt en t0 t1 s))
              = map ref_d (filter (\<lambda>d. anyTopicMatches mt (GetTopicExpr_d d) (topic s))
                             (drivers en))
            \<and> sends (events (handleDriver mt en t0 t1 s)) = [2]
            \<and> raised (handleDriver mt en t0 t1 s) = None
            \<and> (\<exists>pre post. events (handleDriver mt en t0 t1 s) = pre @ Send 2 # post
                  \<and> invokedD post = []))"
proof (intro conjI impI)
  let ?R = "handleDriver mt en t0 t1 s"
  let ?C = "callsOf (handlesD (filter (\<lambda>d. anyTopicMatches mt (GetTopicExpr_d d) (topic s))
                      (drivers en))) (AddAttribute s ''Driver.Start'' (VTime t0))"
  show c: "handleCallsD (events ?R) = upToCut (panicsD en) ?C"
    by (rule handleDriver_calls(1))
  show sd: "sends (events ?R)
       = (if \<exists>c\<in>set (handleCallsD (events ?R)). panicsD en (snd c) then [] else [2])"
    by (rule handleDriver_calls(2))
  assume ok: "\<forall>c\<in>set ?C. \<not> panicsD en (snd c)"
  show all: "handleCallsD (events ?R) = ?C"
    using c upToCut_all[OF ok] by simp
  have np: "\<not> (\<exists>c\<in>set (handleCallsD (events ?R)). panicsD en (snd c))"
    using all ok by simp
  show "invokedD (events ?R)
      = map ref_d (filter (\<lambda>d. anyTopicMatches mt (GetTopicExpr_d d) (topic s)) (drivers en))"
    using handleCalls_invoked(2)[of "events ?R"] all by (simp add: callsOf_refs)
  show "sends (events ?R) = [2]" using sd np by simp
  show "raised ?R = None" using handleDriver_calls(3)[of mt en t0 t1 s] np by blast
  show "\<exists>pre post. events ?R = pre @ Send 2 # post \<and> invokedD post = []"
    by (rule handleDriver_calls(4)[OF np])
qed

theorem driver_fan_out_witness:
  "handleCallsD (events (handleDriver exactTopic
        (exEngine True [] [exDriver 1 nilHandle,
           \<lparr> ref_d = 7, GetTopicExpr_d = [''y''], Handle_d = panicHandle \<rparr>, exDriver 2 nilHandle])
        100 105 exSession))
     = [(1, Return None), (2, Return None)]
   \<and> sends (events (handleDriver exactTopic
        (exEngine True [] [exDriver 1 nilHandle,
           \<lparr> ref_d = 7, GetTopicExpr_d = [''y''], Handle_d = panicHandle \<rparr>, exDriver 2 nilHandle])
        100 105 exSession)) = [2]
   \<and> handleCallsD (events (handleDriver exactTopic
        (exEngine False [] [exDriver 1 errHandle, exDriver 2 nilHandle]) 100 105 exSession))
     = [(1, Return (Some (ErrOther ''failed''))), (2, Return None)]
   \<and> sends (events (handleDriver exactTopic
        (exEngine False [] [exDriver 1 errHandle, exDriver 2 nilHandle]) 100 105 exSession))
     = [2]"
  using driver_fan_out[of exactTopic
      "exEngine True [] [exDriver 1 nilHandle,
           \<lparr> ref_d = 7, GetTopicExpr_d = [''y''], Handle_d = panicHandle \<rparr>, exDriver 2 nilHandle]"
      100 105 exSession]
    driver_fan_out[of exactTopic
      "exEngine False [] [exDriver 1 errHandle, exDriver 2 nilHandle]" 100 105 exSession]
  by (simp add: ex_defs callHandle_def AddAttribute_def newSession_def)

section \<open>The completion callback\<close>

text \<open>
  C4, as stated: for every session the completion callback is invoked exactly once. This
  fails for a session whose interceptor panics with fail-fast off: the panic is recovered,
  the session is sent to no stage, and the callback is never called.
\<close>

theorem completion_callback_counterexample:
  "completions (serveLv0 exactTopic (sort_key GetPriority)
      (exEngine False [exInterceptor 1 10 panicHandle] [exDriver 5 nilHandle])
      exClock exSession) = []"
  by (simp add: ex_defs handleInterceptor_def stage_def interceptorBody_def findMatches_def
        matchLog_def OnIfLogV_def callHandle_def AddAttribute_def newSession_def
        recover_def checkRecover_def prepend_def serveLv0_def)

text \<open>
  C4, amended: the completion callback is called only by the output-stage handler, which
  calls it (when it is not nil) exactly once each time it runs, with the session's outbound
  data mapping at that moment; the interceptor stage and the driver stage never call it.
  For every session it is called at most once, and it is called exactly once unless the
  callback is nil or a call of \<open>Handle\<close> made for the session ended its stage by a panic
  (the call panicked or, with fail-fast on, returned an error, for an interceptor an error
  other than the drop sentinel): such a session never reaches the output stage.
\<close>

theorem completion_callback:
  "completions (events (handleInterceptor mt srt en t0 t1 s)) = []
   \<and> completions (events (handleDriver mt en t0 t1 s)) = []
   \<and> completions (events (handleOutput en t0 t1 s))
       = (case onCompletedFunc s of None \<Rightarrow> [] | Some f \<Rightarrow> [Data_out (outbound s)])
   \<and> length (completions (serveLv0 mt srt en clk s)) \<le> 1
   \<and> (length (completions (serveLv0 mt srt en clk s)) = 1
        \<longleftrightarrow> onCompletedFunc s \<noteq> None
          \<and> \<not> (\<exists>c\<in>set (handleCallsI (serveLv0 mt srt en clk s)). panicsI en (snd c))
          \<and> \<not> (\<exists>c\<in>set (handleCallsD (serveLv0 mt srt en clk s)). panicsD en (snd c)))"
proof -
  obtain s1 evs fl where b: "interceptorBody mt srt en
      (AddAttribute s ''Interceptor.Start'' (VTime t0)) = (s1, evs, fl)"
    by (cases "interceptorBody mt srt en (AddAttribute s ''Interceptor.Start'' (VTime t0))")
  have a1: "completions (events (handleInterceptor mt srt en t0 t1 s)) = []"
    by (rule handleInterceptor_body(3)[OF b])
  obtain s2 evs2 fl2 where d: "driverBody mt en (AddAttribute s ''Driver.Start'' (VTime t0))
      = (s2, evs2, fl2)"
    by (cases "driverBody mt en (AddAttribute s ''Driver.Start'' (VTime t0))")
  have a2: "completions (events (handleDriver mt en t0 t1 s)) = []"
    by (rule handleDriver_body(3)[OF d])
  have a3: "completions (events (handleOutput en t0 t1 s))
       = (case onCompletedFunc s of None \<Rightarrow> [] | Some f \<Rightarrow> [Data_out (outbound s)])"
    by (rule handleOutput_observers(4))
  let ?R = "handleInterceptor mt srt en (fst (clk 0)) (snd (clk 0)) s"
  let ?PI = "\<exists>c\<in>set (handleCallsI (events ?R)). panicsI en (snd c)"
  let ?CI = "\<exists>c\<in>set (handleCallsI (events ?R)). cutsI en (snd c)"
  obtain s1' evs' fl' where b': "interceptorBody mt srt en
      (AddAttribute s ''Interceptor.Start'' (VTime (fst (clk 0)))) = (s1', evs', fl')"
    by (cases "interceptorBody mt srt en
      (AddAttribute s ''Interceptor.Start'' (VTime (fst (clk 0))))")
  have c0: "completions (events ?R) = []" by (rule handleInterceptor_body(3)[OF b'])
  note fw = handleInterceptor_flow[of mt srt en "fst (clk 0)" "snd (clk 0)" s]
  note l1 = serveLv1_facts[of mt en clk "session ?R"]
  have key: "completions (serveLv0 mt srt en clk s)
      = (if ?PI \<or> (\<exists>c\<in>set (handleCallsD (serveLv0 mt srt en clk s)). panicsD en (snd c))
         then []
         else case onCompletedFunc s of
                None \<Rightarrow> []
              | Some f \<Rightarrow> (if ?CI then [Data_out (outbound (session ?R))]
                  else [Data_out (outbound (session
                    (handleDriver mt en (fst (clk 1)) (snd (clk 1)) (session ?R))))]))"
    and ci: "handleCallsI (serveLv0 mt srt en clk s) = handleCallsI (events ?R)"
  proof -
    consider (p) "?PI" | (d) "\<not> ?PI" "?CI" | (c) "\<not> ?PI" "\<not> ?CI" by blast
    then have "completions (serveLv0 mt srt en clk s)
      = (if ?PI \<or> (\<exists>c\<in>set (handleCallsD (serveLv0 mt srt en clk s)). panicsD en (snd c))
         then []
         else case onCompletedFunc s of
                None \<Rightarrow> []
              | Some f \<Rightarrow> (if ?CI then [Data_out (outbound (session ?R))]
                  else [Data_out (outbound (session
                    (handleDriver mt en (fst (clk 1)) (snd (clk 1)) (session ?R))))]))
      \<and> handleCallsI (serveLv0 mt srt en clk s) = handleCallsI (events ?R)"
    proof cases
      case p
      then have "sends (events ?R) = []" using fw(1) by simp
      then show ?thesis using p c0 by (simp add: serveLv0_def Let_def)
    next
      case d
      have r: "raised ?R = None"
      proof (rule ccontr)
        assume "raised ?R \<noteq> None"
        from fw(2)[OF this] d(1) show False by simp
      qed
      have sd: "sends (events ?R) = [2]" using d fw(1) by simp
      have "serveLv0 mt srt en clk s = events ?R @ serveLv2 en clk (session ?R)"
        using sd r by (simp add: serveLv0_def Let_def)
      then show ?thesis
        using d c0 fw(3,4) by (simp add: serveLv2_completions serveLv2_calls split: option.splits)
    next
      case c
      have r: "raised ?R = None"
      proof (rule ccontr)
        assume "raised ?R \<noteq> None"
        from fw(2)[OF this] c(1) show False by simp
      qed
      have sd: "sends (events ?R) = [1]" using c fw(1) by simp
      have "serveLv0 mt srt en clk s = events ?R @ serveLv1 mt en clk (session ?R)"
        using sd r by (simp add: serveLv0_def Let_def)
      then show ?thesis
        using c c0 fw(3,4) l1 by (simp split: option.splits)
    qed
    then show "completions (serveLv0 mt srt en clk s)
      = (if ?PI \<or> (\<exists>c\<in>set (handleCallsD (serveLv0 mt srt en clk s)). panicsD en (snd c))
         then []
         else case onCompletedFunc s of
                None \<Rightarrow> []
              | Some f \<Rightarrow> (if ?CI then [Data_out (outbound (session ?R))]
                  else [Data_out (outbound (session
                    (handleDriver mt en (fst (clk 1)) (snd (clk 1)) (session ?R))))]))"
      and "handleCallsI (serveLv0 mt srt en clk s) = handleCallsI (events ?R)" by simp_all
  qed
  have a4: "length (completions (serveLv0 mt srt en clk s)) \<le> 1"
    unfolding key by (simp split: option.splits)
  have a5: "length (completions (serveLv0 mt srt en clk s)) = 1
        \<longleftrightarrow> onCompletedFunc s \<noteq> None
          \<and> \<not> (\<exists>c\<in>set (handleCallsI (serveLv0 mt srt en clk s)). panicsI en (snd c))
          \<and> \<not> (\<exists>c\<in>set (handleCallsD (serveLv0 mt srt en clk s)). panicsD en (snd c))"
    unfolding ci unfolding key by (auto split: option.splits)
  from a1 a2 a3 a4 a5 show ?thesis by blast
qed

theorem completion_callback_witness:
  "length (completions (serveLv0 exactTopic (sort_key GetPriority)
        (exEngine True [exInterceptor 1 10 dropHandle] [exDriver 5 panicHandle])
        exClock exSession)) = 1
   \<and> handleCallsI (serveLv0 exactTopic (sort_key GetPriority)
        (exEngine True [exInterceptor 1 10 dropHandle] [exDriver 5 panicHandle])
        exClock exSession) = [(1, Return (Some ErrInterceptorDropped))]
   \<and> handleCallsD (serveLv0 exactTopic (sort_key GetPriority)
        (exEngine True [exInterceptor 1 10 dropHandle] [exDriver 5 panicHandle])
        exClock exSession) = []"
  using completion_callback[of exactTopic "sort_key GetPriority"
      "exEngine True [exInterceptor 1 10 dropHandle] [exDriver 5 panicHandle]" 100 105 exSession
      exClock]
  by (simp add: ex_defs handleInterceptor_def stage_def interceptorBody_def findMatches_def
        matchLog_def OnIfLogV_def callHandle_def AddAttribute_def AddDataField_def newSession_def
        recover_def checkRecover_def prepend_def serveLv0_def serveLv2_def handleOutput_def
        outputBody_def Escaped_def)

section \<open>Lifecycle order\<close>




section \<open>Panics in a stage handler\<close>

text \<open>
  C8, as stated: every panic raised inside a stage handler is recovered and logged. The
  log fails for a panic whose value is not an error (\<open>panic("boom")\<close> in a \<open>Handle\<close>):
  \<open>checkRecover\<close> writes its event only under the type assertion \<open>r.(error)\<close>, and the
  handler writes no log event at all.
\<close>

theorem panic_recovered_counterexample:
  "snd (panicHandle exSession) = Panic (PValue (VString ''boom''))
   \<and> events (handleInterceptor exactTopic (sort_key GetPriority)
        (exEngine False [exInterceptor 1 10 panicHandle] []) 100 105 exSession)
     = [SetAttr ''Interceptor.Start'' (VTime 100),
        IHandle 1 (Panic (PValue (VString ''boom''))),
        SetAttr ''Interceptor.End'' (VDuration 5)]
   \<and> anyLogs (events (handleInterceptor exactTopic (sort_key GetPriority)
        (exEngine False [exInterceptor 1 10 panicHandle] []) 100 105 exSession)) = []"
  by (simp add: ex_defs handleInterceptor_def stage_def interceptorBody_def findMatches_def
        matchLog_def OnIfLogV_def callHandle_def AddAttribute_def newSession_def
        recover_def checkRecover_def prepend_def Escaped_def anyLogs_def)

text \<open>
  C8, amended: every panic raised inside a stage handler is recovered at that handler's
  boundary, logged when the recovered value is an error, and raised again only when
  fail-fast is on; when fail-fast is off the panic is swallowed and the session is not
  sent on any further stage, while other sessions are unaffected: the queues of the
  dispatcher are as they were. The theorem has the other side too: when fail-fast is on
  the panic is always raised again, the session is sent on no stage either, and the panic
  leaves the handler, where nothing recovers it: the process ends with every session in it.
\<close>

theorem panic_recovered:
  "(interceptorBody mt srt en (AddAttribute s ''Interceptor.Start'' (VTime t0))
        = (s1, evs, Panicking p)
      \<longrightarrow> raised (handleInterceptor mt srt en t0 t1 s) = (if failFast en then Some p else None)
        \<and> recoverLogs (events (handleInterceptor mt srt en t0 t1 s))
            = (case p of PError err \<Rightarrow> [(0, err)] | _ \<Rightarrow> [])
        \<and> sends (events (handleInterceptor mt srt en t0 t1 s)) = []
        \<and> dispatch mt srt en 0 t0 t1 s d = (if failFast en then None else Some d))
   \<and> (driverBody mt en (AddAttribute s ''Driver.Start'' (VTime t0)) = (s1, evs, Panicking p)
      \<longrightarrow> raised (handleDriver mt en t0 t1 s) = (if failFast en then Some p else None)
        \<and> recoverLogs (events (handleDriver mt en t0 t1 s))
            = (case p of PError err \<Rightarrow> [(1, err)] | _ \<Rightarrow> [])
        \<and> sends (events (handleDriver mt en t0 t1 s)) = []
        \<and> dispatch mt srt en 1 t0 t1 s d = (if failFast en then None else Some d))
   \<and> (outputBody (AddAttribute s ''Output.Start'' (VTime t0)) = (s1, evs, Panicking p)
      \<longrightarrow> raised (handleOutput en t0 t1 s) = (if failFast en then Some p else None)
        \<and> recoverLogs (events (handleOutput en t0 t1 s))
            = (case p of PError err \<Rightarrow> [(2, err)] | _ \<Rightarrow> [])
        \<and> sends (events (handleOutput en t0 t1 s)) = []
        \<and> dispatch mt srt en 2 t0 t1 s d = (if failFast en then None else Some d))
   \<and> (raised (handleInterceptor mt srt en t0 t1 s) \<noteq> None \<longrightarrow> failFast en)
   \<and> (raised (handleDriver mt en t0 t1 s) \<noteq> None \<longrightarrow> failFast en)
   \<and> (raised (handleOutput en t0 t1 s) \<noteq> None \<longrightarrow> failFast en)"
proof (intro conjI impI)
  assume b: "interceptorBody mt srt en (AddAttribute s ''Interceptor.Start'' (VTime t0))
        = (s1, evs, Panicking p)"
  then have b': "interceptorBody mt srt en (AddAttribute s (''Interceptor'' @ ''.Start'') (VTime t0))
        = (s1, evs, Panicking p)" by simp
  have dbg: "\<forall>e\<in>set [Log LDebug (MsgStage 0 (topic s))]. \<exists>m. e = Log LDebug m" by simp
  have sd: "sends evs = []" using interceptorBody_facts(4)[OF b] by simp
  note sp = stage_panic[where body="interceptorBody mt srt en" and en=en and n=0 and ?t1.0=t1,
      OF b' dbg body_recoverLogs(1)[OF b] sd]
  show "raised (handleInterceptor mt srt en t0 t1 s) = (if failFast en then Some p else None)"
    "recoverLogs (events (handleInterceptor mt srt en t0 t1 s))
            = (case p of PError err \<Rightarrow> [(0, err)] | _ \<Rightarrow> [])"
    "sends (events (handleInterceptor mt srt en t0 t1 s)) = []"
    "dispatch mt srt en 0 t0 t1 s d = (if failFast en then None else Some d)"
    using sp(1-3) deliver_no_sends[OF sp(3), of "session (handleInterceptor mt srt en t0 t1 s)" d]
    by (simp_all add: handleInterceptor_def dispatch_def handlerOf_def)
next
  assume b: "driverBody mt en (AddAttribute s ''Driver.Start'' (VTime t0)) = (s1, evs, Panicking p)"
  then have b': "driverBody mt en (AddAttribute s (''Driver'' @ ''.Start'') (VTime t0))
        = (s1, evs, Panicking p)" by simp
  have dbg: "\<forall>e\<in>set [Log LDebug (MsgStage 1 (topic s))]. \<exists>m. e = Log LDebug m" by simp
  have sd: "sends evs = []" using driverBody_facts(4)[OF b] by simp
  note sp = stage_panic[where body="driverBody mt en" and en=en and n=1 and ?t1.0=t1,
      OF b' dbg body_recoverLogs(2)[OF b] sd]
  show "raised (handleDriver mt en t0 t1 s) = (if failFast en then Some p else None)"
    "recoverLogs (events (handleDriver mt en t0 t1 s))
            = (case p of PError err \<Rightarrow> [(1, err)] | _ \<Rightarrow> [])"
    "sends (events (handleDriver mt en t0 t1 s)) = []"
    "dispatch mt srt en 1 t0 t1 s d = (if failFast en then None else Some d)"
    using sp(1-3) deliver_no_sends[OF sp(3), of "session (handleDriver mt en t0 t1 s)" d]
    by (simp_all add: handleDriver_def dispatch_def handlerOf_def)
next
  assume b: "outputBody (AddAttribute s ''Output.Start'' (VTime t0)) = (s1, evs, Panicking p)"
  then have b': "outputBody (AddAttribute s (''Output'' @ ''.Start'') (VTime t0))
        = (s1, evs, Panicking p)" by simp
  have dbg: "\<forall>e\<in>set (Log LDebug (MsgStage 2 (topic s))
          # map (\<lambda>(k, v). Log LDebug (MsgSessionAttr k v)) (attributes s)).
        \<exists>m. e = Log LDebug m" by auto
  have sd: "sends evs = []" using outputBody_facts[OF b] by simp
  note sp = stage_panic[where body=outputBody and en=en and n=2 and ?t1.0=t1,
      OF b' dbg body_recoverLogs(3)[OF b] sd]
  show "raised (handleOutput en t0 t1 s) = (if failFast en then Some p else None)"
    "recoverLogs (events (handleOutput en t0 t1 s))
            = (case p of PError err \<Rightarrow> [(2, err)] | _ \<Rightarrow> [])"
    "sends (events (handleOutput en t0 t1 s)) = []"
    "dispatch mt srt en 2 t0 t1 s d = (if failFast en then None else Some d)"
    using sp(1-3) deliver_no_sends[OF sp(3), of "session (handleOutput en t0 t1 s)" d]
    by (simp_all add: handleOutput_def dispatch_def handlerOf_def)
next
  show "raised (handleInterceptor mt srt en t0 t1 s) \<noteq> None \<Longrightarrow> failFast en"
    unfolding handleInterceptor_def by (rule stage_raised_failFast)
  show "raised (handleDriver mt en t0 t1 s) \<noteq> None \<Longrightarrow> failFast en"
    unfolding handleDriver_def by (rule stage_raised_failFast)
  show "raised (handleOutput en t0 t1 s) \<noteq> None \<Longrightarrow> failFast en"
    unfolding handleOutput_def by (rule stage_raised_failFast)
qed


theorem panic_recovered_witness:
  "snd (snd (interceptorBody exactTopic (sort_key GetPriority)
        (exEngine False [exInterceptor 1 10 panicErrHandle] [])
        (AddAttribute exSession ''Interceptor.Start'' (VTime 100))))
     = Panicking (PError (ErrOther ''fault''))
   \<and> raised (handleInterceptor exactTopic (sort_key GetPriority)
        (exEngine False [exInterceptor 1 10 panicErrHandle] []) 100 105 exSession) = None
   \<and> recoverLogs (events (handleInterceptor exactTopic (sort_key GetPriority)
        (exEngine False [exInterceptor 1 10 panicErrHandle] []) 100 105 exSession))
       = [(0, ErrOther ''fault'')]
   \<and> dispatch exactTopic (sort_key GetPriority)
        (exEngine False [exInterceptor 1 10 panicErrHandle] []) 0 100 105 exSession
        exDispatcher = Some exDispatcher
   \<and> dispatch exactTopic (sort_key GetPriority)
        (exEngine True [exInterceptor 1 10 panicErrHandle] []) 0 100 105 exSession
        exDispatcher = None"
proof -
  let ?E = "exEngine False [exInterceptor 1 10 panicErrHandle] []"
  let ?X = "interceptorBody exactTopic (sort_key GetPriority) ?E
        (AddAttribute exSession ''Interceptor.Start'' (VTime 100))"
  have p: "snd (snd ?X) = Panicking (PError (ErrOther ''fault''))"
    by (simp add: ex_defs panicErrHandle_def interceptorBody_def findMatches_def
        matchLog_def OnIfLogV_def callHandle_def AddAttribute_def newSession_def prepend_def)
  then have b: "?X = (fst ?X, fst (snd ?X), Panicking (PError (ErrOther ''fault'')))"
    by (metis prod.collapse)
  have q: "dispatch exactTopic (sort_key GetPriority)
        (exEngine True [exInterceptor 1 10 panicErrHandle] []) 0 100 105 exSession
        exDispatcher = None"
    by (simp add: ex_defs panicErrHandle_def dispatch_def handlerOf_def handleInterceptor_def
        stage_def interceptorBody_def findMatches_def matchLog_def OnIfLogV_def callHandle_def
        AddAttribute_def newSession_def prepend_def recover_def checkRecover_def)
  from p q panic_recovered[of exactTopic "sort_key GetPriority" ?E exSession 100
      "fst ?X" "fst (snd ?X)" "PError (ErrOther ''fault'')" 105 exDispatcher] b
  show ?thesis by (simp add: exEngine_def)
qed

section \<open>Stage timing attributes\<close>

text \<open>
  C10. Every stage handler stores the attribute \<open><Stage>.Start\<close>, holding the absolute
  time \<open>t0\<close> read at its start, in the session before any \<open>Handle\<close>, callback or send:
  the \<open>Handle\<close>s of the stage are called on the session that holds it. On every exit path
  (the statement has no condition on how the body is left: off its end, by the drop
  return, or by a panic) the deferred function stores \<open><Stage>.End\<close>, holding the
  duration \<open>Escaped\<close> since the session was created and not a time; after it the handler
  only recovers. The attributes the session is left with are those that the \<open>Handle\<close>s
  called left of the attributes with \<open><Stage>.Start\<close> stored, with \<open><Stage>.End\<close>
  stored on top; \<open><Stage>.Start\<close> still holds \<open>t0\<close> when the \<open>Handle\<close>s called leave
  that attribute alone, and after the output stage always.
\<close>

theorem stage_timing:
  "(\<exists>pre mid post. events (handleInterceptor mt srt en t0 t1 s)
        = pre @ SetAttr ''Interceptor.Start'' (VTime t0) # mid
            @ SetAttr ''Interceptor.End'' (VDuration (t1 - timestamp s)) # post
        \<and> invokedI pre = [] \<and> sends pre = [] \<and> invokedI post = [] \<and> sends post = [])
   \<and> (\<exists>run rest. srt (findMatches mt en s) = run @ rest
        \<and> handleCallsI (events (handleInterceptor mt srt en t0 t1 s))
            = callsOf (handlesI run) (AddAttribute s ''Interceptor.Start'' (VTime t0))
        \<and> attributes (session (handleInterceptor mt srt en t0 t1 s))
            = AList.update ''Interceptor.End'' (VDuration (t1 - timestamp s))
                (attributes (sessionAfter (handlesI run)
                   (AddAttribute s ''Interceptor.Start'' (VTime t0))))
        \<and> ((\<forall>it\<in>set run. keepsAttribute ''Interceptor.Start'' (Handle_i it))
             \<longrightarrow> map_of (attributes (session (handleInterceptor mt srt en t0 t1 s)))
                   ''Interceptor.Start'' = Some (VTime t0)))
   \<and> map_of (attributes (session (handleInterceptor mt srt en t0 t1 s))) ''Interceptor.End''
        = Some (VDuration (t1 - timestamp s))
   \<and> (\<exists>pre mid post. events (handleDriver mt en t0 t1 s)
        = pre @ SetAttr ''Driver.Start'' (VTime t0) # mid
            @ SetAttr ''Driver.End'' (VDuration (t1 - timestamp s)) # post
        \<and> invokedD pre = [] \<and> sends pre = [] \<and> invokedD post = [] \<and> sends post = [])
   \<and> (\<exists>drun drest.
          filter (\<lambda>d. anyTopicMatches mt (GetTopicExpr_d d) (topic s)) (drivers en) = drun @ drest
        \<and> handleCallsD (events (handleDriver mt en t0 t1 s))
            = callsOf (handlesD drun) (AddAttribute s ''Driver.Start'' (VTime t0))
        \<and> attributes (session (handleDriver mt en t0 t1 s))
            = AList.update ''Driver.End'' (VDuration (t1 - timestamp s))
                (attributes (sessionAfter (handlesD drun)
                   (AddAttribute s ''Driver.Start'' (VTime t0))))
        \<and> ((\<forall>d\<in>set drun. keepsAttribute ''Driver.Start'' (Handle_d d))
             \<longrightarrow> map_of (attributes (session (handleDriver mt en t0 t1 s)))
                   ''Driver.Start'' = Some (VTime t0)))
   \<and> map_of (attributes (session (handleDriver mt en t0 t1 s))) ''Driver.End''
        = Some (VDuration (t1 - timestamp s))
   \<and> (\<exists>pre mid post. events (handleOutput en t0 t1 s)
        = pre @ SetAttr ''Output.Start'' (VTime t0) # mid
            @ SetAttr ''Output.End'' (VDuration (t1 - timestamp s)) # post
        \<and> completions pre = [] \<and> completions post = [])
   \<and> attributes (session (handleOutput en t0 t1 s))
        = AList.update ''Output.End'' (VDuration (t1 - timestamp s))
            (AList.update ''Output.Start'' (VTime t0) (attributes s))
   \<and> map_of (attributes (session (handleOutput en t0 t1 s))) ''Output.Start''
        = Some (VTime t0)
   \<and> map_of (attributes (session (handleOutput en t0 t1 s))) ''Output.End''
        = Some (VDuration (t1 - timestamp s))"
proof -
  let ?RI = "handleInterceptor mt srt en t0 t1 s"
  let ?RD = "handleDriver mt en t0 t1 s"
  let ?L = "srt (findMatches mt en s)"
  let ?M = "filter (\<lambda>d. anyTopicMatches mt (GetTopicExpr_d d) (topic s)) (drivers en)"
  let ?ki = "length (handleCallsI (events ?RI))"
  let ?kd = "length (handleCallsD (events ?RD))"
  let ?si = "AddAttribute s ''Interceptor.Start'' (VTime t0)"
  let ?sd = "AddAttribute s ''Driver.Start'' (VTime t0)"
  have i2: "\<exists>run rest. ?L = run @ rest
        \<and> handleCallsI (events ?RI) = callsOf (handlesI run) ?si
        \<and> attributes (session ?RI)
            = AList.update ''Interceptor.End'' (VDuration (t1 - timestamp s))
                (attributes (sessionAfter (handlesI run) ?si))
        \<and> ((\<forall>it\<in>set run. keepsAttribute ''Interceptor.Start'' (Handle_i it))
             \<longrightarrow> map_of (attributes (session ?RI)) ''Interceptor.Start'' = Some (VTime t0))"
  proof -
    have f1: "?L = take ?ki ?L @ drop ?ki ?L" by simp
    have f2: "handleCallsI (events ?RI) = callsOf (handlesI (take ?ki ?L)) ?si"
      by (rule calls_prefix(1)[OF handleInterceptor_calls])
    have a: "attributes (session ?RI)
            = AList.update ''Interceptor.End'' (VDuration (t1 - timestamp s))
                (attributes (sessionAfter (handlesI (take ?ki ?L)) ?si))"
      by (rule handleInterceptor_session)
    have f4: "map_of (attributes (session ?RI)) ''Interceptor.Start'' = Some (VTime t0)"
      if "\<forall>it\<in>set (take ?ki ?L). keepsAttribute ''Interceptor.Start'' (Handle_i it)"
      using keeps_after(1)[OF that, of ?si] unfolding a by (simp add: update_conv')
    from f1 f2 a f4 show ?thesis by blast
  qed
  have i3: "map_of (attributes (session ?RI)) ''Interceptor.End''
        = Some (VDuration (t1 - timestamp s))"
    unfolding handleInterceptor_session by (simp add: update_conv')
  have d2: "\<exists>drun drest. ?M = drun @ drest
        \<and> handleCallsD (events ?RD) = callsOf (handlesD drun) ?sd
        \<and> attributes (session ?RD)
            = AList.update ''Driver.End'' (VDuration (t1 - timestamp s))
                (attributes (sessionAfter (handlesD drun) ?sd))
        \<and> ((\<forall>d\<in>set drun. keepsAttribute ''Driver.Start'' (Handle_d d))
             \<longrightarrow> map_of (attributes (session ?RD)) ''Driver.Start'' = Some (VTime t0))"
  proof -
    have f1: "?M = take ?kd ?M @ drop ?kd ?M" by simp
    have f2: "handleCallsD (events ?RD) = callsOf (handlesD (take ?kd ?M)) ?sd"
      by (rule calls_prefix(2)[OF handleDriver_calls(1)])
    have a: "attributes (session ?RD)
            = AList.update ''Driver.End'' (VDuration (t1 - timestamp s))
                (attributes (sessionAfter (handlesD (take ?kd ?M)) ?sd))"
      by (rule handleDriver_session)
    have f4: "map_of (attributes (session ?RD)) ''Driver.Start'' = Some (VTime t0)"
      if "\<forall>d\<in>set (take ?kd ?M). keepsAttribute ''Driver.Start'' (Handle_d d)"
      using keeps_after(2)[OF that, of ?sd] unfolding a by (simp add: update_conv')
    from f1 f2 a f4 show ?thesis by blast
  qed
  have d3: "map_of (attributes (session ?RD)) ''Driver.End''
        = Some (VDuration (t1 - timestamp s))"
    unfolding handleDriver_session by (simp add: update_conv')
  have o2: "map_of (attributes (session (handleOutput en t0 t1 s))) ''Output.Start''
        = Some (VTime t0)"
    "map_of (attributes (session (handleOutput en t0 t1 s))) ''Output.End''
        = Some (VDuration (t1 - timestamp s))"
    unfolding handleOutput_session by (simp_all add: update_conv')
  from stage_timing_events(1)[of mt srt en t0 t1 s] i2 i3
    stage_timing_events(2)[of mt en t0 t1 s] d2 d3
    stage_timing_events(3)[of en t0 t1 s] handleOutput_session[of en t0 t1 s] o2
  show ?thesis by (intro conjI)
qed

theorem stage_timing_witness:
  "attributes (session (handleInterceptor exactTopic (sort_key GetPriority)
        (exEngine False [exInterceptor 1 10 nilHandle] []) 100 105 exSession))
     = [(''Interceptor.Start'', VTime 100), (''Interceptor.End'', VDuration 5)]
   \<and> attributes (session (handleInterceptor exactTopic (sort_key GetPriority)
        (exEngine False [exInterceptor 1 10 dropHandle] []) 100 105 exSession))
     = [(''Interceptor.Start'', VTime 100), (''Interceptor.End'', VDuration 5)]
   \<and> attributes (session (handleInterceptor exactTopic (sort_key GetPriority)
        (exEngine False [exInterceptor 1 10 panicHandle] []) 100 105 exSession))
     = [(''Interceptor.Start'', VTime 100), (''Interceptor.End'', VDuration 5)]
   \<and> attributes (session (handleDriver exactTopic
        (exEngine False [] [exDriver 5 panicHandle]) 110 115 exSession))
     = [(''Driver.Start'', VTime 110), (''Driver.End'', VDuration 15)]
   \<and> attributes (session (handleOutput (exEngine False [] []) 120 125 exSession))
     = [(''Output.Start'', VTime 120), (''Output.End'', VDuration 25)]
   \<and> map_of (attributes (session (handleInterceptor exactTopic (sort_key GetPriority)
        (exEngine False [exInterceptor 1 10 nilHandle] []) 100 105 exSession)))
        ''Interceptor.Start'' = Some (VTime 100)"
  using stage_timing[of exactTopic "sort_key GetPriority"
      "exEngine False [exInterceptor 1 10 nilHandle] []" 100 105 exSession]
  by (simp add: ex_defs handleInterceptor_def handleDriver_def handleOutput_def stage_def
        interceptorBody_def driverBody_def outputBody_def findMatches_def
        matchLog_def OnIfLogV_def callHandle_def AddAttribute_def AddDataField_def newSession_def
        recover_def checkRecover_def prepend_def Escaped_def sort_key_def)

end
